theory Spec2Isabelle
  imports Main "HOL-Library.Sublist"
begin

section \<open>UpdateList.py: clearing a directory and copying filtered trees\<close>

text \<open>
  The script consists of two functions, \<open>copy_dir\<close> and \<open>clear_dir\<close>, that drive the
  standard library (\<open>os.listdir\<close>, \<open>os.path.join\<close>, \<open>os.path.relpath\<close>,
  \<open>shutil.copytree\<close>, \<open>shutil.rmtree\<close>) on the host file system.  The file system is
  state that is passed in and returned; an exception is a value of type \<open>exn\<close>.

  Modelling decisions:
  \<^item> A path is the list of its components, normalised and absolute (\<open>[]\<close> is the root).
    The text printed for a path is \<open>path_str\<close>.  Separators are those of a POSIX host.
  \<^item> The file system maps paths to entries, a regular file with its content or a
    directory; it is an association list, whose order is the order of \<open>os.listdir\<close>.
    Symbolic links, permissions, times and the capacity of the disk are not part of it,
    so an operation fails only because an entry is missing, is present, or is of the
    wrong kind.
  \<^item> \<open>shutil.copytree\<close> calls itself once per directory level; the interpreter stops
    a recursion deeper than its recursion limit with \<open>RecursionError\<close>.  The limit is
    a component of the state.
\<close>

subsection \<open>Paths and exceptions\<close>

type_synonym path = "string list"

datatype entry = File string | Dir

type_synonym filesys = "(path \<times> entry) list"

datatype exn =
    FileNotFoundError path
  | NotADirectoryError path
  | IsADirectoryError path
  | FileExistsError path
  | SameFileError path path
  | RecursionError
  | Error "exn list"

text \<open>\<open>posixpath.join\<close> on names that are directory entries (non-empty, without a slash).\<close>

fun sep_join :: "string list \<Rightarrow> string" where
  "sep_join [] = []"
| "sep_join [x] = x"
| "sep_join (x # y # ys) = x @ ''/'' @ sep_join (y # ys)"

definition path_str :: "path \<Rightarrow> string" where
  "path_str p = ''/'' @ sep_join p"

text \<open>\<open>os.path.join(path, name)\<close> for a directory \<open>path\<close> and the name of one of its entries.\<close>

definition os_path_join :: "path \<Rightarrow> string \<Rightarrow> path" where
  "os_path_join p name = p @ [name]"

text \<open>The length of \<open>os.path.commonprefix([start_list, path_list])\<close>.\<close>

fun common_len :: "path \<Rightarrow> path \<Rightarrow> nat" where
  "common_len (x # xs) (y # ys) = (if x = y then Suc (common_len xs ys) else 0)"
| "common_len _ _ = 0"

text \<open>
  \<open>posixpath.relpath(path, start)\<close>: one \<open>..\<close> for every component of \<open>start\<close> after the
  common prefix, then the rest of \<open>path\<close>; \<open>.\<close> when nothing is left.
\<close>

definition relpath :: "path \<Rightarrow> path \<Rightarrow> string" where
  "relpath p start =
     (let i = common_len start p;
          rel_list = replicate (length start - i) ''..'' @ drop i p
      in if rel_list = [] then ''.'' else sep_join rel_list)"

text \<open>
  The classes of the exceptions: all of them derive from \<open>Exception\<close>; all but
  \<open>RecursionError\<close> derive from \<open>OSError\<close>.
\<close>

fun is_Exception :: "exn \<Rightarrow> bool" where
  "is_Exception _ = True"

fun is_OSError :: "exn \<Rightarrow> bool" where
  "is_OSError RecursionError = False"
| "is_OSError _ = True"

text \<open>\<open>repr\<close> of a file name: the name between single quotes.\<close>

definition repr_str :: "string \<Rightarrow> string" where
  "repr_str s = [CHR 0x27] @ s @ [CHR 0x27]"

text \<open>
  \<open>str(ex)\<close>.  For \<open>shutil.Error\<close> the text is that of the list of the collected
  errors, each shown here by its own message.
\<close>

fun exn_str :: "exn \<Rightarrow> string" where
  "exn_str (FileNotFoundError p) = ''[Errno 2] No such file or directory: '' @ repr_str (path_str p)"
| "exn_str (NotADirectoryError p) = ''[Errno 20] Not a directory: '' @ repr_str (path_str p)"
| "exn_str (IsADirectoryError p) = ''[Errno 21] Is a directory: '' @ repr_str (path_str p)"
| "exn_str (FileExistsError p) = ''[Errno 17] File exists: '' @ repr_str (path_str p)"
| "exn_str (SameFileError p q) = repr_str (path_str p) @ '' and '' @ repr_str (path_str q) @ '' are the same file''"
| "exn_str RecursionError = ''maximum recursion depth exceeded''"
| "exn_str (Error errs) = ''['' @ concat (map (\<lambda>e. exn_str e @ '', '') errs) @ '']''"

subsection \<open>The file system and the operating-system calls\<close>

text \<open>The root always exists and is a directory.\<close>

definition lookup :: "filesys \<Rightarrow> path \<Rightarrow> entry option" where
  "lookup fs p = (if p = [] then Some Dir else map_of fs p)"

text \<open>Creating or replacing the entry at one path.\<close>

definition put_entry :: "filesys \<Rightarrow> path \<Rightarrow> entry \<Rightarrow> filesys" where
  "put_entry fs p e = (p, e) # filter (\<lambda>x. fst x \<noteq> p) fs"

text \<open>The names of the entries of a directory.\<close>

definition children :: "filesys \<Rightarrow> path \<Rightarrow> string list" where
  "children fs p = remdups (map last (filter (\<lambda>k. k \<noteq> [] \<and> butlast k = p) (map fst fs)))"

text \<open>\<open>os.listdir(path)\<close>.\<close>

definition listdir :: "filesys \<Rightarrow> path \<Rightarrow> exn + string list" where
  "listdir fs p =
     (case lookup fs p of
        None \<Rightarrow> Inl (FileNotFoundError p)
      | Some (File c) \<Rightarrow> Inl (NotADirectoryError p)
      | Some Dir \<Rightarrow> Inr (children fs p))"

text \<open>\<open>os.scandir(path)\<close>: every name with the answer of \<open>is_dir()\<close>, read when listed.\<close>

definition scandir :: "filesys \<Rightarrow> path \<Rightarrow> exn + (string \<times> bool) list" where
  "scandir fs p =
     (case listdir fs p of
        Inl e \<Rightarrow> Inl e
      | Inr names \<Rightarrow> Inr (map (\<lambda>n. (n, lookup fs (p @ [n]) = Some Dir)) names))"

text \<open>\<open>os.mkdir(path)\<close>.\<close>

definition mkdir :: "filesys \<Rightarrow> path \<Rightarrow> exn option \<times> filesys" where
  "mkdir fs p =
     (if lookup fs p \<noteq> None then (Some (FileExistsError p), fs)
      else case lookup fs (butlast p) of
             None \<Rightarrow> (Some (FileNotFoundError p), fs)
           | Some (File c) \<Rightarrow> (Some (NotADirectoryError p), fs)
           | Some Dir \<Rightarrow> (None, put_entry fs p Dir))"

text \<open>
  \<open>os.makedirs(name, exist_ok=False)\<close>: when the parent is missing it is made first,
  a \<open>FileExistsError\<close> of that call being passed over; then \<open>mkdir(name)\<close>.
\<close>

function makedirs :: "filesys \<Rightarrow> path \<Rightarrow> exn option \<times> filesys" where
  "makedirs fs name =
     (if name \<noteq> [] \<and> lookup fs (butlast name) = None
      then (case makedirs fs (butlast name) of
              (None, fs1) \<Rightarrow> mkdir fs1 name
            | (Some e, fs1) \<Rightarrow>
                (case e of FileExistsError p \<Rightarrow> mkdir fs1 name | _ \<Rightarrow> (Some e, fs1)))
      else mkdir fs name)"
  by pat_completeness auto
termination
  by (relation "measure (\<lambda>(fs, name). length name)") auto

declare makedirs.simps [simp del]

text \<open>
  \<open>shutil.copy2(src, dst)\<close> first settles where to write: a destination that is a
  directory stands for the entry of the source's name inside it.
\<close>

definition copy2_target :: "filesys \<Rightarrow> path \<Rightarrow> path \<Rightarrow> path" where
  "copy2_target fs s d = (if lookup fs d = Some Dir \<and> s \<noteq> [] then d @ [last s] else d)"

text \<open>
  Then \<open>copyfile\<close> refuses to copy a file onto itself, opens the source for reading and
  the destination for writing, and copies the content.
\<close>

definition copy2 :: "filesys \<Rightarrow> path \<Rightarrow> path \<Rightarrow> exn option \<times> filesys" where
  "copy2 fs s d =
     (let d' = copy2_target fs s d in
      if d' = s \<and> lookup fs s \<noteq> None then (Some (SameFileError s d'), fs)
      else case lookup fs s of
             None \<Rightarrow> (Some (FileNotFoundError s), fs)
           | Some Dir \<Rightarrow> (Some (IsADirectoryError s), fs)
           | Some (File c) \<Rightarrow>
               (case lookup fs d' of
                  Some Dir \<Rightarrow> (Some (IsADirectoryError d'), fs)
                | _ \<Rightarrow>
                   (case lookup fs (butlast d') of
                      None \<Rightarrow> (Some (FileNotFoundError d'), fs)
                    | Some (File c') \<Rightarrow> (Some (NotADirectoryError d'), fs)
                    | Some Dir \<Rightarrow> (None, put_entry fs d' (File c)))))"

subsection \<open>\<open>shutil.copytree\<close> and \<open>shutil.rmtree\<close>\<close>

text \<open>
  The loop of \<open>_copytree\<close> over the entries of one directory.  An ignored name is passed
  over.  A directory is copied by the recursive call \<open>rec\<close>, a file by \<open>copy2\<close>.  A
  \<open>shutil.Error\<close> of the recursive call hands its list on to \<open>errors\<close>, every other
  \<open>OSError\<close> is appended to it, and the loop goes on; an exception of another class
  leaves the loop.  An item of \<open>errors\<close>, in the library a triple of the two names and
  the message, is the exception itself here; so is the one item that stands for a
  \<open>SameFileError\<close>, whose message the library would add to the list.
\<close>

fun copy_entries ::
  "(filesys \<Rightarrow> path \<Rightarrow> path \<Rightarrow> exn option \<times> filesys) \<Rightarrow> string list \<Rightarrow> path \<Rightarrow> path \<Rightarrow>
   (string \<times> bool) list \<Rightarrow> exn list \<Rightarrow> filesys \<Rightarrow> exn option \<times> exn list \<times> filesys" where
  "copy_entries rec ignored_names src dst [] errors fs = (None, errors, fs)"
| "copy_entries rec ignored_names src dst ((name, is_dir) # entries) errors fs =
     (if name \<in> set ignored_names
      then copy_entries rec ignored_names src dst entries errors fs
      else
        let srcname = os_path_join src name;
            dstname = os_path_join dst name
        in case (if is_dir then rec fs srcname dstname else copy2 fs srcname dstname) of
             (None, fs1) \<Rightarrow> copy_entries rec ignored_names src dst entries errors fs1
           | (Some why, fs1) \<Rightarrow>
               (case why of
                  Error errs \<Rightarrow>
                    copy_entries rec ignored_names src dst entries (errors @ errs) fs1
                | _ \<Rightarrow>
                    if is_OSError why
                    then copy_entries rec ignored_names src dst entries (errors @ [why]) fs1
                    else (Some why, errors, fs1)))"

text \<open>
  \<open>shutil.copytree(src, dst, ignore=ign)\<close>: list \<open>src\<close>, ask \<open>ign\<close> which names to pass
  over, make \<open>dst\<close> (which must not exist), copy the entries, and raise \<open>shutil.Error\<close>
  when the list of errors is not empty.  The first argument is the depth of recursion
  left to the interpreter.  The final \<open>copystat(src, dst)\<close> copies times and permission
  bits, which the file system here does not have.
\<close>

primrec copytree ::
  "nat \<Rightarrow> (path \<Rightarrow> string list \<Rightarrow> string list) \<Rightarrow> filesys \<Rightarrow> path \<Rightarrow> path \<Rightarrow>
   exn option \<times> filesys" where
  "copytree 0 ign fs src dst = (Some RecursionError, fs)"
| "copytree (Suc n) ign fs src dst =
     (case scandir fs src of
        Inl e \<Rightarrow> (Some e, fs)
      | Inr entries \<Rightarrow>
          (let ignored_names = ign src (map fst entries) in
           case makedirs fs dst of
             (Some e, fs1) \<Rightarrow> (Some e, fs1)
           | (None, fs1) \<Rightarrow>
               (case copy_entries (copytree n ign) ignored_names src dst entries [] fs1 of
                  (Some e, errors, fs2) \<Rightarrow> (Some e, fs2)
                | (None, errors, fs2) \<Rightarrow>
                    if errors \<noteq> [] then (Some (Error errors), fs2) else (None, fs2))))"

text \<open>
  \<open>shutil.rmtree(path, True)\<close>, that is, with \<open>ignore_errors\<close> set.  A directory goes
  with everything below it.  For any other path the listing of \<open>path\<close> fails and so does
  the final \<open>os.rmdir(path)\<close>; both errors are ignored, and nothing is removed: a
  regular file stays where it is.
\<close>

definition rmtree :: "filesys \<Rightarrow> path \<Rightarrow> filesys" where
  "rmtree fs p =
     (case lookup fs p of
        Some Dir \<Rightarrow> filter (\<lambda>x. \<not> prefix p (fst x)) fs
      | _ \<Rightarrow> fs)"

subsection \<open>The functions of the script\<close>

record world =
  files :: filesys
  cwd :: path
  recursion_limit :: nat
  out :: "string list"

text \<open>\<open>set(x or [])\<close> for an argument that may be \<open>None\<close>.\<close>

definition set_or_empty :: "string set option \<Rightarrow> string set" where
  "set_or_empty x = (case x of None \<Rightarrow> {} | Some s \<Rightarrow> s)"

text \<open>The function \<open>ignore\<close> that \<open>copy_dir\<close> defines over its \<open>src\<close> and \<open>exclude\<close>.\<close>

definition ignore :: "path \<Rightarrow> string set \<Rightarrow> path \<Rightarrow> string list \<Rightarrow> string list" where
  "ignore src exclude p names =
     filter (\<lambda>name. relpath (os_path_join p name) src \<in> exclude \<or> name \<in> exclude) names"

text \<open>
  \<open>copy_dir(src, dst, exclude)\<close>.  The first component of the result is the exception
  that reaches the caller.
\<close>

definition copy_dir ::
  "world \<Rightarrow> path \<Rightarrow> path \<Rightarrow> string set option \<Rightarrow> exn option \<times> world" where
  "copy_dir w src dst exclude =
     (let exclude' = set_or_empty exclude;
          w1 = w\<lparr>out := out w @ [''Copying: '' @ relpath src (cwd w)]\<rparr>
      in case copytree (recursion_limit w) (ignore src exclude') (files w) src dst of
           (None, fs') \<Rightarrow> (None, w1\<lparr>files := fs'\<rparr>)
         | (Some ex, fs') \<Rightarrow>
             if is_Exception ex
             then (None, w1\<lparr>files := fs',
                     out := out w1 @
                       [''Failed to copy: '' @ path_str src @ '';'' @ [CHR 0x0A] @ exn_str ex]\<rparr>)
             else (Some ex, w1\<lparr>files := fs'\<rparr>))"

text \<open>\<open>clear_dir(path, keep)\<close>.  The listing is taken once, before anything is removed.\<close>

definition clear_dir :: "world \<Rightarrow> path \<Rightarrow> string set option \<Rightarrow> exn option \<times> world" where
  "clear_dir w p keep =
     (let keep' = set_or_empty keep in
      case listdir (files w) p of
        Inl e \<Rightarrow> (Some e, w)
      | Inr items \<Rightarrow>
          (None, w\<lparr>files := fold (\<lambda>item f. rmtree f (os_path_join p item))
                            (filter (\<lambda>item. item \<notin> keep') items) (files w)\<rparr>))"

subsection \<open>Auxiliary notions for the statements\<close>

text \<open>
  A file system is well formed when every entry lies in a directory: the parent of each
  of its paths is present and is a directory.
\<close>

definition wf_fs :: "filesys \<Rightarrow> bool" where
  "wf_fs t = (\<forall>k \<in> set (map fst t). k \<noteq> [] \<longrightarrow> lookup t (butlast k) = Some Dir)"

text \<open>
  \<open>walked src exclude p q\<close>: starting in the directory \<open>p\<close>, the walk of
  \<open>copy_dir src _ exclude\<close> follows the names \<open>q\<close> one after the other, none of them
  being returned by \<open>ignore\<close> for the directory it lies in.
\<close>

fun walked :: "path \<Rightarrow> string set \<Rightarrow> path \<Rightarrow> path \<Rightarrow> bool" where
  "walked src exclude p [] = True"
| "walked src exclude p (name # q) =
     (ignore src exclude p [name] = [] \<and> walked src exclude (os_path_join p name) q)"

text \<open>\<open>extends t t'\<close>: every entry of \<open>t\<close> is an entry of \<open>t'\<close>, unchanged.\<close>

definition extends :: "filesys \<Rightarrow> filesys \<Rightarrow> bool" where
  "extends t t' = (\<forall>p. lookup t p \<noteq> None \<longrightarrow> lookup t' p = lookup t p)"

text \<open>\<open>news t t'\<close>: the paths that are absent from \<open>t\<close> and present in \<open>t'\<close>.\<close>

definition news :: "filesys \<Rightarrow> filesys \<Rightarrow> path set" where
  "news t t' = {p. lookup t p = None \<and> lookup t' p \<noteq> None}"

text \<open>\<open>keeps t t'\<close>: what is present stays present, and a directory stays a directory.\<close>

definition keeps :: "filesys \<Rightarrow> filesys \<Rightarrow> bool" where
  "keeps t t' = (\<forall>p. (lookup t p \<noteq> None \<longrightarrow> lookup t' p \<noteq> None) \<and>
                     (lookup t p = Some Dir \<longrightarrow> lookup t' p = Some Dir))"

text \<open>
  What the loop of \<open>_copytree\<close> needs of the recursive call, for the inductions over the
  depth: on a well-formed file system it leaves one, changes no entry that is there, and
  creates entries only above the destination or, below it, along names that \<open>W\<close> admits
  (\<open>rec_ok\<close>); when it succeeds, every file of the source that \<open>W\<close> admits is at the
  destination with its content (\<open>rec_copies\<close>); it never raises \<open>shutil.Error\<close> with an
  empty list (\<open>rec_noempty\<close>).
\<close>

definition rec_ok ::
  "(path \<Rightarrow> path \<Rightarrow> bool) \<Rightarrow> (filesys \<Rightarrow> path \<Rightarrow> path \<Rightarrow> exn option \<times> filesys) \<Rightarrow> bool" where
  "rec_ok W rec = (\<forall>t s d r t'. wf_fs t \<longrightarrow> rec t s d = (r, t') \<longrightarrow>
      wf_fs t' \<and> extends t t' \<and> (\<forall>p \<in> news t t'. prefix p d \<or> (\<exists>q. p = d @ q \<and> W s q)))"

definition rec_copies ::
  "(path \<Rightarrow> path \<Rightarrow> bool) \<Rightarrow> (filesys \<Rightarrow> path \<Rightarrow> path \<Rightarrow> exn option \<times> filesys) \<Rightarrow> bool" where
  "rec_copies W rec = (\<forall>t s d t'. wf_fs t \<longrightarrow> rec t s d = (None, t') \<longrightarrow>
      (\<forall>q c. lookup t (s @ q) = Some (File c) \<and> W s q \<longrightarrow> lookup t' (d @ q) = Some (File c)))"

definition rec_noempty :: "(filesys \<Rightarrow> path \<Rightarrow> path \<Rightarrow> exn option \<times> filesys) \<Rightarrow> bool" where
  "rec_noempty rec = (\<forall>t s d t'. rec t s d \<noteq> (Some (Error []), t'))"

section \<open>Properties\<close>

subsection \<open>Looking up after an update\<close>

lemma lookup_put_entry:
  "p \<noteq> [] \<Longrightarrow> lookup (put_entry t p e) q = (if q = p then Some e else lookup t q)"
  by (induction t) (auto simp: lookup_def put_entry_def)

lemma map_of_filter_fst:
  "map_of (filter (\<lambda>x. P (fst x)) xs) k = (if P k then map_of xs k else None)"
  by (induction xs) auto

lemma lookup_rmtree:
  "lookup (rmtree t p) q =
     (if lookup t p = Some Dir \<and> prefix p q \<and> q \<noteq> [] then None else lookup t q)"
  using map_of_filter_fst [of "\<lambda>k. \<not> prefix p k" t q]
  by (auto simp: rmtree_def lookup_def split: option.splits entry.splits)

lemma set_children: "set (children t p) = {n. lookup t (p @ [n]) \<noteq> None}"
proof -
  have "n \<in> set (children t p) \<longleftrightarrow> p @ [n] \<in> fst ` set t" for n
  proof
    assume "n \<in> set (children t p)"
    then obtain k where k: "k \<in> fst ` set t" "k \<noteq> []" "butlast k = p" "last k = n"
      by (auto simp: children_def)
    then have "k = p @ [n]" using append_butlast_last_id by fastforce
    with k show "p @ [n] \<in> fst ` set t" by simp
  next
    assume "p @ [n] \<in> fst ` set t"
    then show "n \<in> set (children t p)"
      by (force simp: children_def image_iff)
  qed
  then show ?thesis
    by (auto simp: lookup_def map_of_eq_None_iff)
qed

lemma distinct_children: "distinct (children t p)"
  by (simp add: children_def)

subsection \<open>\<open>clear_dir\<close>\<close>

lemma lookup_fold_rmtree:
  "lookup (fold (\<lambda>item f. rmtree f (os_path_join p item)) items t) q =
     (if \<exists>item \<in> set items. lookup t (p @ [item]) = Some Dir \<and> prefix (p @ [item]) q
      then None else lookup t q)"
proof (induction items arbitrary: t)
  case Nil
  show ?case by simp
next
  case (Cons a items)
  let ?t1 = "rmtree t (p @ [a])"
  have child: "lookup ?t1 (p @ [item]) =
      (if lookup t (p @ [a]) = Some Dir \<and> a = item then None else lookup t (p @ [item]))" for item
    by (simp add: lookup_rmtree)
  have here: "lookup ?t1 q =
      (if lookup t (p @ [a]) = Some Dir \<and> prefix (p @ [a]) q then None else lookup t q)"
    by (auto simp: lookup_rmtree)
  have "lookup (fold (\<lambda>item f. rmtree f (os_path_join p item)) (a # items) t) q =
        lookup (fold (\<lambda>item f. rmtree f (os_path_join p item)) items ?t1) q"
    by (simp add: os_path_join_def)
  also have "\<dots> = (if \<exists>item \<in> set items. lookup ?t1 (p @ [item]) = Some Dir \<and> prefix (p @ [item]) q
                     then None else lookup ?t1 q)"
    by (rule Cons.IH)
  also have "\<dots> = (if \<exists>item \<in> set (a # items). lookup t (p @ [item]) = Some Dir \<and> prefix (p @ [item]) q
                     then None else lookup t q)"
    unfolding child here by auto
  finally show ?case .
qed

text \<open>
  What \<open>clear_dir\<close> does on a directory: the children that are directories and are not
  kept go, with everything below them; every other path stays as it is.
\<close>

lemma clear_dir_lookup:
  assumes "lookup (files w) p = Some Dir"
  shows "fst (clear_dir w p keep) = None"
    and "out (snd (clear_dir w p keep)) = out w"
    and "lookup (files (snd (clear_dir w p keep))) q =
           (if \<exists>item. item \<notin> set_or_empty keep \<and> lookup (files w) (p @ [item]) = Some Dir \<and>
                       prefix (p @ [item]) q
            then None else lookup (files w) q)"
  using assms
  by (auto simp: clear_dir_def listdir_def lookup_fold_rmtree set_children)

lemma clear_dir_raises:
  "lookup (files w) p \<noteq> Some Dir \<Longrightarrow>
   clear_dir w p keep =
     (Some (if lookup (files w) p = None then FileNotFoundError p else NotADirectoryError p), w)"
  by (auto simp: clear_dir_def listdir_def split: option.splits entry.splits)

text \<open>
  C1.  The claim: after \<open>clear(path, keep)\<close> every direct child that is not kept is
  absent, a regular file as well as a directory; with \<open>keep = {a.txt}\<close> and a directory
  holding \<open>a.txt\<close>, \<open>b.txt\<close> and \<open>sub/\<close>, only \<open>a.txt\<close> remains.  The code at this input:
  \<open>sub/\<close> goes, and the regular file \<open>b.txt\<close>, which is not kept, remains beside
  \<open>a.txt\<close>, since \<open>shutil.rmtree\<close> removes directories only and its errors are ignored.
\<close>

theorem clear_dir_leaves_regular_file:
  "clear_dir \<lparr>files = [([''d''], Dir), ([''d'', ''a.txt''], File ''A''),
                       ([''d'', ''b.txt''], File ''B''), ([''d'', ''sub''], Dir),
                       ([''d'', ''sub'', ''x''], File ''X'')],
              cwd = [], recursion_limit = 1000, out = []\<rparr> [''d''] (Some {''a.txt''})
   = (None, \<lparr>files = [([''d''], Dir), ([''d'', ''a.txt''], File ''A''),
                       ([''d'', ''b.txt''], File ''B'')],
              cwd = [], recursion_limit = 1000, out = []\<rparr>)"
  by (simp add: clear_dir_def listdir_def lookup_def children_def set_or_empty_def rmtree_def
      os_path_join_def)

text \<open>
  C5, as stated: \<open>clear(path, keep)\<close> on a path that does not exist completes without
  error.  It does not: \<open>os.listdir\<close> raises \<open>FileNotFoundError\<close>, which reaches the caller.
\<close>

theorem clear_dir_missing_path_raises:
  "fst (clear_dir \<lparr>files = [], cwd = [], recursion_limit = 1000, out = []\<rparr> [''nope''] (Some {}))
   = Some (FileNotFoundError [''nope''])"
  by (simp add: clear_dir_def listdir_def lookup_def)

text \<open>
  C5, amended: on a path that does not exist \<open>clear_dir\<close> changes nothing and raises
  \<open>FileNotFoundError\<close>; on a directory without children it changes nothing, prints
  nothing and raises nothing.
\<close>

theorem clear_dir_missing_or_empty:
  "(lookup (files w) p = None \<longrightarrow> clear_dir w p keep = (Some (FileNotFoundError p), w)) \<and>
   (lookup (files w) p = Some Dir \<and> children (files w) p = [] \<longrightarrow> clear_dir w p keep = (None, w))"
  by (auto simp: clear_dir_def listdir_def)

theorem clear_dir_missing_or_empty_witness:
  "clear_dir \<lparr>files = [([''d''], Dir)], cwd = [], recursion_limit = 1000, out = []\<rparr> [''nope''] (Some {''a''})
     = (Some (FileNotFoundError [''nope'']),
        \<lparr>files = [([''d''], Dir)], cwd = [], recursion_limit = 1000, out = []\<rparr>) \<and>
   clear_dir \<lparr>files = [([''d''], Dir)], cwd = [], recursion_limit = 1000, out = []\<rparr> [''d''] (Some {''a''})
     = (None, \<lparr>files = [([''d''], Dir)], cwd = [], recursion_limit = 1000, out = []\<rparr>)"
  using clear_dir_missing_or_empty
          [of "\<lparr>files = [([''d''], Dir)], cwd = [], recursion_limit = 1000, out = []\<rparr>"
              "[''nope'']" "Some {''a''}"]
        clear_dir_missing_or_empty
          [of "\<lparr>files = [([''d''], Dir)], cwd = [], recursion_limit = 1000, out = []\<rparr>"
              "[''d'']" "Some {''a''}"]
  by (simp add: lookup_def children_def)

text \<open>
  C8.  \<open>clear_dir\<close> leaves every kept child and everything below it as it was.  Nor
  does it look below a kept child: two file systems that differ only there get the same
  outcome and the same result everywhere else.
\<close>

theorem clear_dir_kept_untouched:
  "(\<forall>k rest. k \<in> set_or_empty keep \<longrightarrow>
      lookup (files (snd (clear_dir w p keep))) (p @ k # rest) = lookup (files w) (p @ k # rest)) \<and>
   (\<forall>w2 :: world. (\<forall>q. \<not> (\<exists>k \<in> set_or_empty keep. strict_prefix (p @ [k]) q) \<longrightarrow>
              lookup (files w2) q = lookup (files w) q) \<longrightarrow>
      fst (clear_dir w2 p keep) = fst (clear_dir w p keep) \<and>
      (\<forall>q. \<not> (\<exists>k \<in> set_or_empty keep. strict_prefix (p @ [k]) q) \<longrightarrow>
         lookup (files (snd (clear_dir w2 p keep))) q =
         lookup (files (snd (clear_dir w p keep))) q))"
proof (intro conjI allI impI)
  fix k rest
  assume k: "k \<in> set_or_empty keep"
  show "lookup (files (snd (clear_dir w p keep))) (p @ k # rest) = lookup (files w) (p @ k # rest)"
  proof (cases "lookup (files w) p = Some Dir")
    case True
    have "\<not> (\<exists>item. item \<notin> set_or_empty keep \<and> lookup (files w) (p @ [item]) = Some Dir \<and>
               prefix (p @ [item]) (p @ k # rest))"
      using k by auto
    then show ?thesis
      by (simp only: clear_dir_lookup(3) [OF True] if_False)
  next
    case False
    then show ?thesis
      by (simp add: clear_dir_raises)
  qed
next
  fix w2 :: world
  assume agree: "\<forall>q. \<not> (\<exists>k \<in> set_or_empty keep. strict_prefix (p @ [k]) q) \<longrightarrow>
                   lookup (files w2) q = lookup (files w) q"
  have not_below: "\<not> (\<exists>k \<in> set_or_empty keep. strict_prefix (p @ [k]) p)"
    by (auto simp: strict_prefix_def)
  have child_not_below: "\<not> (\<exists>k \<in> set_or_empty keep. strict_prefix (p @ [k]) (p @ [item]))" for item
    by (auto simp: strict_prefix_def)
  have at_p: "lookup (files w2) p = lookup (files w) p"
    using agree not_below by blast
  have at_child: "lookup (files w2) (p @ [item]) = lookup (files w) (p @ [item])" for item
    using agree child_not_below by blast
  show "fst (clear_dir w2 p keep) = fst (clear_dir w p keep)"
  proof (cases "lookup (files w) p = Some Dir")
    case True
    then show ?thesis using at_p by (simp add: clear_dir_lookup(1))
  next
    case False
    then show ?thesis using at_p by (simp add: clear_dir_raises)
  qed
  fix q
  assume q: "\<not> (\<exists>k \<in> set_or_empty keep. strict_prefix (p @ [k]) q)"
  then have at_q: "lookup (files w2) q = lookup (files w) q"
    using agree by blast
  show "lookup (files (snd (clear_dir w2 p keep))) q = lookup (files (snd (clear_dir w p keep))) q"
  proof (cases "lookup (files w) p = Some Dir")
    case True
    then have True2: "lookup (files w2) p = Some Dir" using at_p by simp
    show ?thesis
      by (simp only: clear_dir_lookup(3) [OF True] clear_dir_lookup(3) [OF True2] at_child at_q)
  next
    case False
    then show ?thesis using at_p at_q by (simp add: clear_dir_raises)
  qed
qed

theorem clear_dir_kept_untouched_witness:
  "''.git'' \<in> set_or_empty (Some {''.git''}) \<and>
   lookup (files (snd (clear_dir
      \<lparr>files = [([''d''], Dir), ([''d'', ''.git''], Dir), ([''d'', ''.git'', ''HEAD''], File ''ref''),
                ([''d'', ''old''], Dir), ([''d'', ''old'', ''x''], File ''X'')],
       cwd = [], recursion_limit = 1000, out = []\<rparr> [''d''] (Some {''.git''}))))
     [''d'', ''.git'', ''HEAD''] = Some (File ''ref'')"
  using clear_dir_kept_untouched [THEN conjunct1, rule_format,
          where k = "''.git''" and keep = "Some {''.git''}" and p = "[''d'']" and rest = "[''HEAD'']"
            and w = "\<lparr>files = [([''d''], Dir), ([''d'', ''.git''], Dir),
                               ([''d'', ''.git'', ''HEAD''], File ''ref''),
                               ([''d'', ''old''], Dir), ([''d'', ''old'', ''x''], File ''X'')],
                      cwd = [], recursion_limit = 1000, out = []\<rparr>"]
  by (simp add: set_or_empty_def lookup_def)



subsection \<open>\<open>copy_dir\<close>: exclusion and failures\<close>

lemma common_len_append: "common_len s (s @ q) = length s"
  by (induction s) auto

lemma relpath_below: "q \<noteq> [] \<Longrightarrow> relpath (s @ q) s = sep_join q"
  by (simp add: relpath_def common_len_append)

lemma copytree_missing_src:
  "lookup t src = None \<Longrightarrow>
   copytree n ign t src dst =
     (Some (if n = 0 then RecursionError else FileNotFoundError src), t)"
  by (cases n) (auto simp: scandir_def listdir_def)


text \<open>
  C4.  No exception leaves \<open>copy_dir\<close>.  When \<open>shutil.copytree\<close> raises, whatever the
  exception, \<open>copy_dir\<close> returns normally, having printed after the line of the start a
  line with the source path and the message of the exception.
\<close>

theorem copy_dir_never_raises:
  "fst (copy_dir w src dst exclude) = None \<and>
   (\<forall>ex t'. copytree (recursion_limit w) (ignore src (set_or_empty exclude)) (files w) src dst
               = (Some ex, t') \<longrightarrow>
      snd (copy_dir w src dst exclude) =
        w\<lparr>files := t',
          out := out w @ [''Copying: '' @ relpath src (cwd w),
                          ''Failed to copy: '' @ path_str src @ '';'' @ [CHR 0x0A] @ exn_str ex]\<rparr>)"
  by (auto simp: copy_dir_def Let_def split: prod.splits option.splits)

theorem copy_dir_never_raises_witness:
  "copytree 1000 (ignore [''src''] (set_or_empty None)) [([''src''], Dir), ([''dst''], File ''D'')]
      [''src''] [''dst'']
     = (Some (FileExistsError [''dst'']), [([''src''], Dir), ([''dst''], File ''D'')]) \<and>
   copy_dir \<lparr>files = [([''src''], Dir), ([''dst''], File ''D'')], cwd = [], recursion_limit = 1000,
             out = []\<rparr> [''src''] [''dst''] None
     = (None, \<lparr>files = [([''src''], Dir), ([''dst''], File ''D'')], cwd = [], recursion_limit = 1000,
               out = [''Copying: src'',
                      ''Failed to copy: /src;'' @ [CHR 0x0A] @ ''[Errno 17] File exists: '' @ [CHR 0x27] @ ''/dst'' @ [CHR 0x27]]\<rparr>)"
proof -
  have raised: "copytree 1000 (ignore [''src''] (set_or_empty None))
      [([''src''], Dir), ([''dst''], File ''D'')] [''src''] [''dst'']
     = (Some (FileExistsError [''dst'']), [([''src''], Dir), ([''dst''], File ''D'')])"
    by code_simp
  have "snd (copy_dir \<lparr>files = [([''src''], Dir), ([''dst''], File ''D'')], cwd = [],
                       recursion_limit = 1000, out = []\<rparr> [''src''] [''dst''] None)
     = \<lparr>files = [([''src''], Dir), ([''dst''], File ''D'')], cwd = [], recursion_limit = 1000,
        out = [''Copying: src'',
               ''Failed to copy: /src;'' @ [CHR 0x0A] @ ''[Errno 17] File exists: '' @ [CHR 0x27] @ ''/dst'' @ [CHR 0x27]]\<rparr>"
    using copy_dir_never_raises [THEN conjunct2, rule_format,
        of "\<lparr>files = [([''src''], Dir), ([''dst''], File ''D'')], cwd = [],
              recursion_limit = 1000, out = []\<rparr>" "[''src'']" None "[''dst'']"] raised
    by (simp add: relpath_def path_str_def repr_str_def)
  moreover have "fst (copy_dir \<lparr>files = [([''src''], Dir), ([''dst''], File ''D'')], cwd = [],
                       recursion_limit = 1000, out = []\<rparr> [''src''] [''dst''] None) = None"
    using copy_dir_never_raises by blast
  ultimately show ?thesis
    using raised by (simp add: prod_eq_iff)
qed

text \<open>
  C6.  When \<open>src\<close> does not exist, \<open>copy_dir\<close> raises nothing, prints the line of the
  start and a line of failure that names \<open>src\<close>, and leaves the file system as it was;
  so a \<open>dst\<close> that was missing is still missing.
\<close>

theorem copy_dir_missing_src:
  "lookup (files w) src = None \<Longrightarrow>
   copy_dir w src dst exclude =
     (None, w\<lparr>out := out w @
        [''Copying: '' @ relpath src (cwd w),
         ''Failed to copy: '' @ path_str src @ '';'' @ [CHR 0x0A] @
           exn_str (if recursion_limit w = 0 then RecursionError else FileNotFoundError src)]\<rparr>)"
  by (simp add: copy_dir_def copytree_missing_src)

theorem copy_dir_missing_src_witness:
  "lookup (files \<lparr>files = [([''home''], Dir)], cwd = [''home''], recursion_limit = 1000, out = []\<rparr>)
      [''nosrc''] = None \<and>
   copy_dir \<lparr>files = [([''home''], Dir)], cwd = [''home''], recursion_limit = 1000, out = []\<rparr>
      [''nosrc''] [''home'', ''dst''] (Some {''bin''})
   = (None, \<lparr>files = [([''home''], Dir)], cwd = [''home''], recursion_limit = 1000,
             out = [''Copying: ../nosrc'',
                    ''Failed to copy: /nosrc;'' @ [CHR 0x0A] @
                    ''[Errno 2] No such file or directory: '' @ [CHR 0x27] @ ''/nosrc'' @ [CHR 0x27]]\<rparr>)"
  using copy_dir_missing_src
     [of "\<lparr>files = [([''home''], Dir)], cwd = [''home''], recursion_limit = 1000, out = []\<rparr>"
         "[''nosrc'']" "[''home'', ''dst'']" "Some {''bin''}"]
  by (simp add: lookup_def relpath_def path_str_def repr_str_def)


subsection \<open>\<open>copy_dir\<close>: what \<open>shutil.copytree\<close> changes\<close>

text \<open>
  The calls of the operating system, case by case: a call that fails changes nothing, a
  call that succeeds writes one entry.
\<close>

lemma lookup_Nil [simp]: "lookup t [] = Some Dir"
  by (simp add: lookup_def)

lemma copy2_cases:
  assumes "copy2 t s d = (r, t')"
  obtains (fail) e where "r = Some e" "t' = t" "is_OSError e" "\<forall>errs. e \<noteq> Error errs"
  | (ok) c where "r = None" "t' = put_entry t (copy2_target t s d) (File c)"
      "lookup t s = Some (File c)" "copy2_target t s d \<noteq> []"
      "lookup t (copy2_target t s d) \<noteq> Some Dir"
      "lookup t (butlast (copy2_target t s d)) = Some Dir"
proof -
  define d' where "d' = copy2_target t s d"
  have eq: "copy2 t s d =
     (if d' = s \<and> lookup t s \<noteq> None then (Some (SameFileError s d'), t)
      else case lookup t s of
             None \<Rightarrow> (Some (FileNotFoundError s), t)
           | Some Dir \<Rightarrow> (Some (IsADirectoryError s), t)
           | Some (File c) \<Rightarrow>
               (case lookup t d' of
                  Some Dir \<Rightarrow> (Some (IsADirectoryError d'), t)
                | _ \<Rightarrow>
                   (case lookup t (butlast d') of
                      None \<Rightarrow> (Some (FileNotFoundError d'), t)
                    | Some (File c') \<Rightarrow> (Some (NotADirectoryError d'), t)
                    | Some Dir \<Rightarrow> (None, put_entry t d' (File c)))))"
    unfolding copy2_def d'_def Let_def by (rule refl)
  show ?thesis
  proof (cases r)
    case None
    with assms eq obtain c where c: "lookup t s = Some (File c)" "lookup t d' \<noteq> Some Dir"
      "lookup t (butlast d') = Some Dir" "t' = put_entry t d' (File c)"
      by (auto split: if_splits option.splits entry.splits)
    from c(2) have "d' \<noteq> []" by auto
    with c None show ?thesis using ok unfolding d'_def by blast
  next
    case (Some e)
    with assms eq have "t' = t" "is_OSError e" "\<forall>errs. e \<noteq> Error errs"
      by (auto split: if_splits option.splits entry.splits)
    then show ?thesis using Some fail by blast
  qed
qed

lemma mkdir_cases:
  assumes "mkdir t p = (r, t')"
  obtains (fail) e where "r = Some e" "t' = t"
  | (ok) "r = None" "t' = put_entry t p Dir" "p \<noteq> []" "lookup t p = None"
      "lookup t (butlast p) = Some Dir"
  using assms
  by (cases "p = []") (auto simp: mkdir_def split: if_splits option.splits entry.splits)


text \<open>Well-formed file systems, and how they grow.\<close>

lemma wf_fs_iff:
  "wf_fs t \<longleftrightarrow> (\<forall>p. p \<noteq> [] \<and> lookup t p \<noteq> None \<longrightarrow> lookup t (butlast p) = Some Dir)"
proof -
  have "k \<noteq> [] \<Longrightarrow> (k \<in> set (map fst t)) = (lookup t k \<noteq> None)" for k
    by (simp add: lookup_def map_of_eq_None_iff)
  then show ?thesis
    unfolding wf_fs_def by blast
qed

lemma wf_parent: "wf_fs t \<Longrightarrow> lookup t (p @ [n]) \<noteq> None \<Longrightarrow> lookup t p = Some Dir"
  using wf_fs_iff [of t] by (metis butlast_snoc snoc_eq_iff_butlast)

lemma wf_below: "wf_fs t \<Longrightarrow> q \<noteq> [] \<Longrightarrow> lookup t (p @ q) \<noteq> None \<Longrightarrow> lookup t p = Some Dir"
proof (induction q arbitrary: p rule: rev_induct)
  case Nil
  then show ?case by simp
next
  case (snoc n q)
  from snoc.prems have up: "lookup t (p @ q) = Some Dir"
    using wf_parent [of t "p @ q" n] by simp
  show ?case
  proof (cases "q = []")
    case True
    with up show ?thesis by simp
  next
    case False
    with snoc.IH [OF snoc.prems(1) False] up show ?thesis by simp
  qed
qed

lemma wf_prefix: "wf_fs t \<Longrightarrow> prefix p q \<Longrightarrow> lookup t q \<noteq> None \<Longrightarrow> lookup t p \<noteq> None"
  by (metis append_Nil2 option.distinct(1) prefix_def wf_below)

lemma wf_put_entry:
  assumes "wf_fs t" "p \<noteq> []" "lookup t (butlast p) = Some Dir" "lookup t p \<noteq> Some Dir"
  shows "wf_fs (put_entry t p e)"
  unfolding wf_fs_iff
proof (intro allI impI)
  fix q
  assume q: "q \<noteq> [] \<and> lookup (put_entry t p e) q \<noteq> None"
  have bp: "butlast p \<noteq> p" using assms(2) by (metis append_butlast_last_id append_self_conv list.distinct(1))
  show "lookup (put_entry t p e) (butlast q) = Some Dir"
  proof (cases "q = p")
    case True
    then show ?thesis using assms bp by (simp add: lookup_put_entry)
  next
    case False
    with q assms(2) have "lookup t q \<noteq> None" by (simp add: lookup_put_entry)
    with q assms(1) have par: "lookup t (butlast q) = Some Dir" by (simp add: wf_fs_iff)
    with assms(4) have "butlast q \<noteq> p" by auto
    with par assms(2) show ?thesis by (simp add: lookup_put_entry)
  qed
qed

lemma extends_refl: "extends t t"
  by (simp add: extends_def)

lemma extends_trans: "extends t t1 \<Longrightarrow> extends t1 t2 \<Longrightarrow> extends t t2"
  unfolding extends_def by metis

lemma extends_put_entry: "p \<noteq> [] \<Longrightarrow> lookup t p = None \<Longrightarrow> extends t (put_entry t p e)"
  by (auto simp: extends_def lookup_put_entry)

lemma news_refl: "news t t = {}"
  by (auto simp: news_def)

lemma news_trans: "extends t t1 \<Longrightarrow> news t t2 \<subseteq> news t t1 \<union> news t1 t2"
  by (auto simp: news_def extends_def)

lemma news_put_entry: "p \<noteq> [] \<Longrightarrow> news t (put_entry t p e) \<subseteq> {p}"
  by (auto simp: news_def lookup_put_entry split: if_splits)

text \<open>
  \<open>os.mkdir\<close> and \<open>os.makedirs\<close> keep a file system well formed, change no entry that
  is there, and create directories only at the path asked for and above it.
\<close>

lemma mkdir_frame:
  assumes "wf_fs t" "mkdir t p = (r, t')"
  shows "wf_fs t' \<and> extends t t' \<and> news t t' \<subseteq> {p} \<and>
         (r = None \<longrightarrow> lookup t p = None \<and> lookup t' p = Some Dir)"
  using assms(2)
proof (cases rule: mkdir_cases)
  case (fail e)
  then show ?thesis using assms(1) by (simp add: extends_refl news_refl)
next
  case ok
  have 1: "wf_fs t'" using assms(1) ok by (simp add: wf_put_entry)
  have 2: "extends t t'" using ok by (simp add: extends_put_entry)
  have 3: "news t t' \<subseteq> {p}" using ok news_put_entry by simp
  have 4: "lookup t' p = Some Dir" using ok by (simp add: lookup_put_entry)
  show ?thesis using 1 2 3 4 ok by simp
qed

lemma makedirs_unfold:
  "makedirs t name =
     (if name \<noteq> [] \<and> lookup t (butlast name) = None
      then (case makedirs t (butlast name) of
              (None, fs1) \<Rightarrow> mkdir fs1 name
            | (Some e, fs1) \<Rightarrow>
                (case e of FileExistsError p \<Rightarrow> mkdir fs1 name | _ \<Rightarrow> (Some e, fs1)))
      else mkdir t name)"
  by (rule makedirs.simps)

lemma extends_None: "extends t t0 \<Longrightarrow> lookup t0 p = None \<Longrightarrow> lookup t p = None"
  unfolding extends_def by (metis option.distinct(1))

lemma makedirs_frame:
  "wf_fs t \<Longrightarrow> makedirs t name = (r, t') \<Longrightarrow>
   wf_fs t' \<and> extends t t' \<and> (\<forall>p \<in> news t t'. prefix p name) \<and>
   (r = None \<longrightarrow> lookup t name = None \<and> lookup t' name = Some Dir)"
proof (induction t name arbitrary: r t' rule: makedirs.induct)
  case (1 t name)
  note wf = "1.prems"(1) and run = "1.prems"(2)
  show ?case
  proof (cases "name \<noteq> [] \<and> lookup t (butlast name) = None")
    case missing: True
    obtain r0 t0 where rec: "makedirs t (butlast name) = (r0, t0)"
      by (cases "makedirs t (butlast name)")
    have ih: "wf_fs t0 \<and> extends t t0 \<and> (\<forall>p \<in> news t t0. prefix p (butlast name))"
      using "1.IH" [OF missing wf rec] by blast
    have pre: "\<forall>p \<in> news t t0. prefix p name"
      using ih prefix_order.order_trans prefixeq_butlast by blast
    have step: "makedirs t name =
        (case r0 of None \<Rightarrow> mkdir t0 name
         | Some e \<Rightarrow> (case e of FileExistsError p \<Rightarrow> mkdir t0 name | _ \<Rightarrow> (Some e, t0)))"
      by (subst makedirs_unfold) (simp add: missing rec)
    show ?thesis
    proof (cases "r0 = None \<or> (\<exists>p. r0 = Some (FileExistsError p))")
      case True
      then have "mkdir t0 name = (r, t')"
        using step run by auto
      from mkdir_frame [OF _ this] ih
      have mk: "wf_fs t'" "extends t0 t'" "news t0 t' \<subseteq> {name}"
        "r = None \<longrightarrow> lookup t0 name = None \<and> lookup t' name = Some Dir"
        by auto
      have e: "extends t t'" using ih mk(2) extends_trans by blast
      have n: "news t t' \<subseteq> news t t0 \<union> {name}"
        using news_trans [of t t0 t'] ih mk(3) by blast
      have l: "r = None \<longrightarrow> lookup t name = None"
        using mk(4) ih extends_None by blast
      show ?thesis using mk(1) e n pre l mk(4) by auto
    next
      case False
      then obtain e where e: "r0 = Some e" "\<forall>p. e \<noteq> FileExistsError p" by auto
      then have "makedirs t name = (Some e, t0)"
        using step by (cases e) auto
      with run have "r = Some e" "t' = t0" by auto
      then show ?thesis using ih pre by simp
    qed
  next
    case False
    then have "makedirs t name = mkdir t name"
      by (subst makedirs_unfold) auto
    with run have "mkdir t name = (r, t')" by simp
    from mkdir_frame [OF wf this] show ?thesis by auto
  qed
qed

lemma copy2_target_fresh: "lookup t d = None \<Longrightarrow> copy2_target t s d = d"
  by (simp add: copy2_target_def)

lemma copy2_frame:
  assumes "wf_fs t" "lookup t d = None" "copy2 t s d = (r, t')"
  shows "wf_fs t' \<and> extends t t' \<and> news t t' \<subseteq> {d} \<and>
         (r = None \<longrightarrow> (\<exists>c. lookup t s = Some (File c) \<and> lookup t' d = Some (File c))) \<and>
         (\<forall>e. r = Some e \<longrightarrow> is_OSError e \<and> (\<forall>errs. e \<noteq> Error errs))"
  using assms(3)
proof (cases rule: copy2_cases)
  case (fail e)
  then show ?thesis using assms(1) by (simp add: extends_refl news_refl)
next
  case (ok c)
  note tgt = copy2_target_fresh [OF assms(2), of s]
  have 1: "wf_fs t'" using assms(1) ok tgt by (simp add: wf_put_entry)
  have 2: "extends t t'" using ok assms(2) tgt by (simp add: extends_put_entry)
  have 3: "news t t' \<subseteq> {d}" using ok tgt news_put_entry [of d t "File c"] by simp
  have 4: "lookup t' d = Some (File c)" using ok tgt by (simp add: lookup_put_entry)
  show ?thesis using 1 2 3 4 ok by simp
qed

text \<open>One round of the loop.\<close>

lemma copy_entries_Cons:
  assumes "copy_entries rec ign src dst ((n, b) # es) errs t = (r, errs', t')"
  obtains (skip) "n \<in> set ign" "copy_entries rec ign src dst es errs t = (r, errs', t')"
  | (go) r1 t1 x where "n \<notin> set ign"
      "(if b then rec t (src @ [n]) (dst @ [n]) else copy2 t (src @ [n]) (dst @ [n])) = (r1, t1)"
      "copy_entries rec ign src dst es (errs @ x) t1 = (r, errs', t')"
      "r1 = None \<longrightarrow> x = []"
      "x = [] \<longrightarrow> r1 = None \<or> r1 = Some (Error [])"
  | (stop) t1 where "n \<notin> set ign"
      "(if b then rec t (src @ [n]) (dst @ [n]) else copy2 t (src @ [n]) (dst @ [n])) = (r, t1)"
      "r \<noteq> None" "t' = t1" "errs' = errs" "\<forall>x. r \<noteq> Some (Error x)"
proof (cases "n \<in> set ign")
  case True
  with assms show ?thesis using skip by simp
next
  case False
  obtain r1 t1 where op:
    "(if b then rec t (src @ [n]) (dst @ [n]) else copy2 t (src @ [n]) (dst @ [n])) = (r1, t1)"
    by (cases "if b then rec t (src @ [n]) (dst @ [n]) else copy2 t (src @ [n]) (dst @ [n])")
  show ?thesis
  proof (cases r1)
    case None
    with assms False op have "copy_entries rec ign src dst es (errs @ []) t1 = (r, errs', t')"
      by (simp add: os_path_join_def)
    with False op None show ?thesis using go [of r1 t1 "[]"] by simp
  next
    case (Some why)
    show ?thesis
    proof (cases "\<exists>errs1. why = Error errs1")
      case True
      then obtain errs1 where why: "why = Error errs1" by blast
      with assms False op Some
      have "copy_entries rec ign src dst es (errs @ errs1) t1 = (r, errs', t')"
        by (simp add: os_path_join_def)
      with False op Some why show ?thesis using go [of r1 t1 errs1] by simp
    next
      case notError: False
      show ?thesis
      proof (cases "is_OSError why")
        case True
        with assms False op Some notError
        have "copy_entries rec ign src dst es (errs @ [why]) t1 = (r, errs', t')"
          by (cases why) (simp_all add: os_path_join_def)
        with False op Some show ?thesis using go [of r1 t1 "[why]"] by simp
      next
        case False2: False
        with assms False op Some notError
        have "r = Some why \<and> t' = t1 \<and> errs' = errs"
          by (cases why) (simp_all add: os_path_join_def)
        with False op Some notError show ?thesis using stop [of t1] by simp
      qed
    qed
  qed
qed

lemma copy_entries_errors:
  "copy_entries rec ign src dst es errs t = (r, errs', t') \<Longrightarrow> \<exists>x. errs' = errs @ x"
proof (induction es arbitrary: errs t)
  case Nil
  then show ?case by simp
next
  case (Cons a es)
  obtain n b where a: "a = (n, b)" by (cases a)
  from Cons.prems [unfolded a] show ?case
  proof (cases rule: copy_entries_Cons)
    case skip
    then show ?thesis using Cons.IH by blast
  next
    case (go r1 t1 x)
    from Cons.IH [OF go(3)] show ?thesis by auto
  next
    case (stop t1)
    then show ?thesis by simp
  qed
qed

text \<open>
  The loop over the entries of a directory whose destination has just been made: each
  round writes below its own name only, so the rounds do not meet.
\<close>

lemma entry_frame:
  assumes ok: "rec_ok W rec" and W0: "\<And>s. W s []"
    and wf: "wf_fs t" and dst: "lookup t dst = Some Dir" and fresh: "lookup t (dst @ [n]) = None"
    and op: "(if b then rec t (src @ [n]) (dst @ [n]) else copy2 t (src @ [n]) (dst @ [n])) = (r1, t1)"
  shows "wf_fs t1 \<and> extends t t1 \<and> (\<forall>p \<in> news t t1. \<exists>q. p = dst @ n # q \<and> W (src @ [n]) q)"
proof (cases b)
  case True
  with op have run: "rec t (src @ [n]) (dst @ [n]) = (r1, t1)" by simp
  from ok wf run have fr: "wf_fs t1" "extends t t1"
    "\<forall>p \<in> news t t1. prefix p (dst @ [n]) \<or> (\<exists>q. p = (dst @ [n]) @ q \<and> W (src @ [n]) q)"
    unfolding rec_ok_def by blast+
  have "\<exists>q. p = dst @ n # q \<and> W (src @ [n]) q" if p: "p \<in> news t t1" for p
  proof -
    from fr(3) p consider "prefix p (dst @ [n])" | q where "p = (dst @ [n]) @ q" "W (src @ [n]) q"
      by blast
    then show ?thesis
    proof cases
      case 1
      have "\<not> prefix p dst"
      proof
        assume "prefix p dst"
        with wf dst have "lookup t p \<noteq> None" using wf_prefix by fastforce
        with p show False by (simp add: news_def)
      qed
      with 1 have "p = dst @ [n]" by simp
      then show ?thesis using W0 by simp
    next
      case 2
      then show ?thesis by simp
    qed
  qed
  with fr show ?thesis by blast
next
  case False
  with op have run: "copy2 t (src @ [n]) (dst @ [n]) = (r1, t1)" by simp
  from copy2_frame [OF wf fresh run]
  have fr: "wf_fs t1" "extends t t1" "news t t1 \<subseteq> {dst @ [n]}" by auto
  have "\<exists>q. p = dst @ n # q \<and> W (src @ [n]) q" if p: "p \<in> news t t1" for p
    using fr(3) p W0 by auto
  with fr show ?thesis by blast
qed

lemma copy_entries_frame:
  assumes ok: "rec_ok W rec" and W0: "\<And>s. W s []"
  shows "wf_fs t \<Longrightarrow> lookup t dst = Some Dir \<Longrightarrow>
     \<forall>n \<in> fst ` set es. lookup t (dst @ [n]) = None \<Longrightarrow> distinct (map fst es) \<Longrightarrow>
     copy_entries rec ign src dst es errs t = (r, errs', t') \<Longrightarrow>
     wf_fs t' \<and> extends t t' \<and>
     (\<forall>p \<in> news t t'. \<exists>n q. p = dst @ n # q \<and> n \<in> fst ` set es \<and> n \<notin> set ign \<and> W (src @ [n]) q)"
proof (induction es arbitrary: t errs)
  case Nil
  then show ?case by (simp add: extends_refl news_refl)
next
  case (Cons a es)
  obtain n b where a: "a = (n, b)" by (cases a)
  note wf = Cons.prems(1) and dst = Cons.prems(2)
  have fresh_n: "lookup t (dst @ [n]) = None" using Cons.prems(3) a by simp
  have fresh_es: "\<forall>m \<in> fst ` set es. lookup t (dst @ [m]) = None" using Cons.prems(3) by simp
  have dist: "distinct (map fst es)" "n \<notin> fst ` set es" using Cons.prems(4) a by auto
  from Cons.prems(5) [unfolded a] show ?case
  proof (cases rule: copy_entries_Cons)
    case skip
    from Cons.IH [OF wf dst fresh_es dist(1) skip(2)]
    have ih: "wf_fs t'" "extends t t'"
      "\<forall>p \<in> news t t'. \<exists>m q. p = dst @ m # q \<and> m \<in> fst ` set es \<and> m \<notin> set ign \<and> W (src @ [m]) q"
      by auto
    have "\<exists>m q. p = dst @ m # q \<and> m \<in> fst ` set (a # es) \<and> m \<notin> set ign \<and> W (src @ [m]) q"
      if p: "p \<in> news t t'" for p
    proof -
      from ih(3) p obtain m q where
        mq: "p = dst @ m # q" "m \<in> fst ` set es" "m \<notin> set ign" "W (src @ [m]) q"
        by blast
      from mq(2) have "m \<in> fst ` set (a # es)" by simp
      with mq show ?thesis by blast
    qed
    with ih(1,2) show ?thesis by blast
  next
    case (go r1 t1 x)
    from entry_frame [OF ok W0 wf dst fresh_n go(2)]
    have fr: "wf_fs t1" "extends t t1"
      "\<forall>p \<in> news t t1. \<exists>q. p = dst @ n # q \<and> W (src @ [n]) q" by auto
    have dst1: "lookup t1 dst = Some Dir" using fr(2) dst by (simp add: extends_def)
    have fresh1: "\<forall>m \<in> fst ` set es. lookup t1 (dst @ [m]) = None"
    proof
      fix m assume m: "m \<in> fst ` set es"
      show "lookup t1 (dst @ [m]) = None"
      proof (rule ccontr)
        assume "lookup t1 (dst @ [m]) \<noteq> None"
        moreover have "lookup t (dst @ [m]) = None" by (rule fresh_es [rule_format, OF m])
        ultimately have "dst @ [m] \<in> news t t1" by (simp add: news_def)
        with fr(3) obtain q where "dst @ [m] = dst @ n # q" by blast
        then have "m = n" by simp
        with m dist(2) show False by simp
      qed
    qed
    from Cons.IH [OF fr(1) dst1 fresh1 dist(1) go(3)]
    have ih: "wf_fs t'" "extends t1 t'"
      "\<forall>p \<in> news t1 t'. \<exists>m q. p = dst @ m # q \<and> m \<in> fst ` set es \<and> m \<notin> set ign \<and> W (src @ [m]) q"
      by auto
    have e: "extends t t'" using fr(2) ih(2) extends_trans by blast
    have "\<exists>m q. p = dst @ m # q \<and> m \<in> fst ` set (a # es) \<and> m \<notin> set ign \<and> W (src @ [m]) q"
      if p: "p \<in> news t t'" for p
    proof -
      from news_trans [OF fr(2), of t'] p have "p \<in> news t t1 \<or> p \<in> news t1 t'" by blast
      then show ?thesis
      proof
        assume "p \<in> news t t1"
        with fr(3) obtain q where q: "p = dst @ n # q" "W (src @ [n]) q" by blast
        have "n \<in> fst ` set (a # es)" by (simp add: a)
        with q go(1) show ?thesis by blast
      next
        assume "p \<in> news t1 t'"
        with ih(3) obtain m q where
          mq: "p = dst @ m # q" "m \<in> fst ` set es" "m \<notin> set ign" "W (src @ [m]) q"
          by blast
        from mq(2) have "m \<in> fst ` set (a # es)" by simp
        with mq show ?thesis by blast
      qed
    qed
    with ih(1) e show ?thesis by blast
  next
    case (stop t1)
    from entry_frame [OF ok W0 wf dst fresh_n stop(2)]
    have fr: "wf_fs t1" "extends t t1"
      "\<forall>p \<in> news t t1. \<exists>q. p = dst @ n # q \<and> W (src @ [n]) q" by auto
    have "\<exists>m q. p = dst @ m # q \<and> m \<in> fst ` set (a # es) \<and> m \<notin> set ign \<and> W (src @ [m]) q"
      if p: "p \<in> news t t1" for p
    proof -
      from fr(3) p obtain q where q: "p = dst @ n # q" "W (src @ [n]) q" by blast
      have "n \<in> fst ` set (a # es)" by (simp add: a)
      with q stop(1) show ?thesis by blast
    qed
    with fr stop(4) show ?thesis by blast
  qed
qed

text \<open>\<open>shutil.copytree\<close>, by induction on the depth of recursion that is left.\<close>

lemma copytree_Suc:
  assumes "copytree (Suc n) ign t s d = (r, t')"
  obtains (scan_fail) e where "scandir t s = Inl e" "r = Some e" "t' = t"
  | (mk_fail) entries e where "scandir t s = Inr entries" "makedirs t d = (Some e, t')" "r = Some e"
  | (loop) entries t0 r2 errs2 where "scandir t s = Inr entries" "makedirs t d = (None, t0)"
      "copy_entries (copytree n ign) (ign s (map fst entries)) s d entries [] t0 = (r2, errs2, t')"
      "r = (case r2 of Some e \<Rightarrow> Some e | None \<Rightarrow> if errs2 \<noteq> [] then Some (Error errs2) else None)"
proof (cases "scandir t s")
  case (Inl e)
  with assms have "r = Some e" "t' = t" by simp_all
  with Inl show ?thesis by (rule scan_fail)
next
  case (Inr entries)
  obtain r0 t0 where mk: "makedirs t d = (r0, t0)" by (cases "makedirs t d")
  show ?thesis
  proof (cases r0)
    case (Some e)
    with assms Inr mk have "r = Some e" "t' = t0" by simp_all
    with Inr mk Some show ?thesis using mk_fail [of entries e] by simp
  next
    case None
    obtain r2 errs2 t2 where ce:
      "copy_entries (copytree n ign) (ign s (map fst entries)) s d entries [] t0 = (r2, errs2, t2)"
      by (cases "copy_entries (copytree n ign) (ign s (map fst entries)) s d entries [] t0")
    with assms Inr mk None
    have "t' = t2"
      "r = (case r2 of Some e \<Rightarrow> Some e | None \<Rightarrow> if errs2 \<noteq> [] then Some (Error errs2) else None)"
      by (auto simp: Let_def split: option.splits if_splits)
    with Inr mk None ce show ?thesis using loop [of entries t0 r2 errs2] by simp
  qed
qed

lemma scandir_Inr:
  assumes "scandir t s = Inr entries"
  shows "lookup t s = Some Dir" "map fst entries = children t s"
    "entries = map (\<lambda>n. (n, lookup t (s @ [n]) = Some Dir)) (children t s)"
  using assms
  by (auto simp: scandir_def listdir_def comp_def split: option.splits entry.splits)

lemma not_ignored:
  "m \<in> set names \<Longrightarrow> m \<notin> set (ignore src0 ex s names) \<Longrightarrow> ignore src0 ex s [m] = []"
  by (auto simp: ignore_def)

lemma copytree_rec_ok: "rec_ok (walked src0 ex) (copytree n (ignore src0 ex))"
proof (induction n)
  case 0
  show ?case by (auto simp: rec_ok_def extends_refl news_refl)
next
  case (Suc n)
  let ?ign = "ignore src0 ex"
  let ?W = "walked src0 ex"
  show ?case
    unfolding rec_ok_def
  proof (intro allI impI)
    fix t s d r t'
    assume wf: "wf_fs t" and run: "copytree (Suc n) ?ign t s d = (r, t')"
    from run show "wf_fs t' \<and> extends t t' \<and>
        (\<forall>p \<in> news t t'. prefix p d \<or> (\<exists>q. p = d @ q \<and> ?W s q))"
    proof (cases rule: copytree_Suc)
      case (scan_fail e)
      then show ?thesis using wf by (simp add: extends_refl news_refl)
    next
      case (mk_fail entries e)
      from makedirs_frame [OF wf mk_fail(2)] show ?thesis by blast
    next
      case (loop entries t0 r2 errs2)
      from makedirs_frame [OF wf loop(2)]
      have mk: "wf_fs t0" "extends t t0" "\<forall>p \<in> news t t0. prefix p d"
        "lookup t d = None" "lookup t0 d = Some Dir" by auto
      have fresh: "\<forall>m \<in> fst ` set entries. lookup t0 (d @ [m]) = None"
      proof
        fix m assume "m \<in> fst ` set entries"
        show "lookup t0 (d @ [m]) = None"
        proof (rule ccontr)
          assume ex: "lookup t0 (d @ [m]) \<noteq> None"
          have "lookup t (d @ [m]) = None"
          proof (rule ccontr)
            assume "lookup t (d @ [m]) \<noteq> None"
            from wf_parent [OF wf this] mk(4) show False by simp
          qed
          with ex have "d @ [m] \<in> news t t0" by (simp add: news_def)
          with mk(3) have "prefix (d @ [m]) d" by blast
          then show False by simp
        qed
      qed
      have dist: "distinct (map fst entries)"
        using scandir_Inr(2) [OF loop(1)] by (simp add: distinct_children)
      have W0: "\<And>s. ?W s []" by simp
      from copy_entries_frame [OF Suc.IH W0 mk(1) mk(5) fresh dist loop(3)]
      have ce: "wf_fs t'" "extends t0 t'"
        "\<forall>p \<in> news t0 t'. \<exists>m q. p = d @ m # q \<and> m \<in> fst ` set entries \<and>
            m \<notin> set (?ign s (map fst entries)) \<and> ?W (s @ [m]) q"
        by auto
      have e: "extends t t'" using mk(2) ce(2) extends_trans by blast
      have "prefix p d \<or> (\<exists>q. p = d @ q \<and> ?W s q)" if p: "p \<in> news t t'" for p
      proof -
        from news_trans [OF mk(2), of t'] p have "p \<in> news t t0 \<or> p \<in> news t0 t'" by blast
        then show ?thesis
        proof
          assume "p \<in> news t t0"
          with mk(3) show ?thesis by blast
        next
          assume "p \<in> news t0 t'"
          with ce(3) obtain m q where mq: "p = d @ m # q" "m \<in> fst ` set entries"
            "m \<notin> set (?ign s (map fst entries))" "?W (s @ [m]) q" by blast
          from mq(2) have "m \<in> set (map fst entries)" by simp
          from not_ignored [OF this mq(3)] mq(4) have "?W s (m # q)"
            by (simp add: os_path_join_def)
          with mq(1) show ?thesis by blast
        qed
      qed
      with ce(1) e show ?thesis by blast
    qed
  qed
qed

text \<open>The names that the walk follows are those that are not excluded.\<close>

lemma ignore_single:
  "ignore src ex (src @ r) [m] = [] \<longleftrightarrow> m \<notin> ex \<and> sep_join (r @ [m]) \<notin> ex"
  using relpath_below [of "r @ [m]" src]
  by (auto simp: ignore_def os_path_join_def)

lemma walked_last:
  "walked src ex (src @ r) q \<Longrightarrow> q \<noteq> [] \<Longrightarrow> last q \<notin> ex \<and> sep_join (r @ q) \<notin> ex"
proof (induction q arbitrary: r)
  case Nil
  then show ?case by simp
next
  case (Cons m q)
  from Cons.prems(1) have here: "m \<notin> ex" "sep_join (r @ [m]) \<notin> ex"
    and rest: "walked src ex (src @ (r @ [m])) q"
    by (simp_all add: ignore_single os_path_join_def)
  show ?case
  proof (cases "q = []")
    case True
    with here show ?thesis by simp
  next
    case False
    from Cons.IH [OF rest False] False show ?thesis by simp
  qed
qed

lemma copytree_loop:
  assumes wf: "wf_fs t" and scan: "scandir t s = Inr entries"
    and mkd: "makedirs t d = (None, t0)"
    and ce: "copy_entries (copytree n (ignore src0 ex)) ign s d entries errs t0 = (r2, errs2, t')"
  shows "wf_fs t0" "extends t t0" "lookup t d = None" "lookup t0 d = Some Dir"
    "\<forall>m \<in> fst ` set entries. lookup t0 (d @ [m]) = None" "distinct (map fst entries)"
    "wf_fs t'" "extends t0 t'"
proof -
  from makedirs_frame [OF wf mkd]
  show mk: "wf_fs t0" "extends t t0" "lookup t d = None" "lookup t0 d = Some Dir" by auto
  from makedirs_frame [OF wf mkd] have located: "\<forall>p \<in> news t t0. prefix p d" by auto
  show fresh: "\<forall>m \<in> fst ` set entries. lookup t0 (d @ [m]) = None"
  proof
    fix m assume "m \<in> fst ` set entries"
    show "lookup t0 (d @ [m]) = None"
    proof (rule ccontr)
      assume ex: "lookup t0 (d @ [m]) \<noteq> None"
      have "lookup t (d @ [m]) = None"
      proof (rule ccontr)
        assume "lookup t (d @ [m]) \<noteq> None"
        from wf_parent [OF wf this] mk(3) show False by simp
      qed
      with ex have "d @ [m] \<in> news t t0" by (simp add: news_def)
      with located have "prefix (d @ [m]) d" by blast
      then show False by simp
    qed
  qed
  show dist: "distinct (map fst entries)"
    using scandir_Inr(2) [OF scan] by (simp add: distinct_children)
  have W0: "\<And>s. walked src0 ex s []" by simp
  from copy_entries_frame [OF copytree_rec_ok W0 mk(1) mk(4) fresh dist ce]
  show "wf_fs t'" "extends t0 t'" by auto
qed

lemma copytree_success:
  assumes "wf_fs t" "copytree n (ignore src ex) t s d = (None, t')"
  shows "lookup t s = Some Dir \<and> lookup t d = None \<and> lookup t' d = Some Dir \<and>
         wf_fs t' \<and> extends t t'"
proof -
  from assms(2) obtain m where n: "n = Suc m" by (cases n) auto
  from assms(2) [unfolded n] show ?thesis
  proof (cases rule: copytree_Suc)
    case (scan_fail e)
    then show ?thesis by simp
  next
    case (mk_fail entries e)
    then show ?thesis by simp
  next
    case (loop entries t0 r2 errs2)
    note fr = copytree_loop [OF assms(1) loop(1) loop(2) loop(3)]
    have "lookup t' d = Some Dir" using fr(4) fr(8) by (simp add: extends_def)
    moreover have "extends t t'" using fr(2) fr(8) extends_trans by blast
    ultimately show ?thesis using scandir_Inr(1) [OF loop(1)] fr(3) fr(7) by simp
  qed
qed

text \<open>Nothing that \<open>ignore\<close> excludes appears below the destination.\<close>

lemma copytree_below_dst:
  assumes wf: "wf_fs t" and run: "copytree n (ignore src ex) t src dst = (None, t')"
    and q: "q \<noteq> []" "lookup t' (dst @ q) \<noteq> None"
  shows "walked src ex src q"
proof -
  from copytree_success [OF wf run] have fresh: "lookup t dst = None" by simp
  have "lookup t (dst @ q) = None"
  proof (rule ccontr)
    assume "lookup t (dst @ q) \<noteq> None"
    from wf_below [OF wf q(1) this] fresh show False by simp
  qed
  with q(2) have "dst @ q \<in> news t t'" by (simp add: news_def)
  moreover from copytree_rec_ok [of src ex n] wf run
  have "\<forall>p \<in> news t t'. prefix p dst \<or> (\<exists>q'. p = dst @ q' \<and> walked src ex src q')"
    unfolding rec_ok_def by blast
  ultimately have "prefix (dst @ q) dst \<or> (\<exists>q'. dst @ q = dst @ q' \<and> walked src ex src q')"
    by blast
  with q(1) show ?thesis by auto
qed

text \<open>
  Which exceptions arise: \<open>shutil.Error\<close> comes from the end of \<open>copytree\<close> only, and
  never with an empty list.
\<close>

lemma mkdir_exn: "mkdir t p = (Some e, t') \<Longrightarrow> e \<noteq> Error x"
  by (auto simp: mkdir_def split: if_splits option.splits entry.splits)

lemma makedirs_exn: "makedirs t name = (Some e, t') \<Longrightarrow> e \<noteq> Error x"
proof (induction t name arbitrary: e t' rule: makedirs.induct)
  case (1 t name)
  show ?case
  proof (cases "name \<noteq> [] \<and> lookup t (butlast name) = None")
    case missing: True
    obtain r0 t0 where rec: "makedirs t (butlast name) = (r0, t0)"
      by (cases "makedirs t (butlast name)")
    have step: "makedirs t name =
        (case r0 of None \<Rightarrow> mkdir t0 name
         | Some e \<Rightarrow> (case e of FileExistsError p \<Rightarrow> mkdir t0 name | _ \<Rightarrow> (Some e, t0)))"
      by (subst makedirs_unfold) (simp add: missing rec)
    show ?thesis
    proof (cases "r0 = None \<or> (\<exists>p. r0 = Some (FileExistsError p))")
      case True
      then have "mkdir t0 name = (Some e, t')"
        using step "1.prems" by auto
      then show ?thesis by (rule mkdir_exn)
    next
      case False
      then obtain e0 where e0: "r0 = Some e0" "\<forall>p. e0 \<noteq> FileExistsError p" by auto
      then have "makedirs t name = (Some e0, t0)"
        using step by (cases e0) auto
      with "1.prems" have "e = e0" by simp
      with "1.IH" [OF missing, of e0 t0] rec e0(1) show ?thesis by simp
    qed
  next
    case False
    then have "makedirs t name = mkdir t name"
      by (subst makedirs_unfold) auto
    with "1.prems" have "mkdir t name = (Some e, t')" by simp
    then show ?thesis by (rule mkdir_exn)
  qed
qed

lemma scandir_Inl: "scandir t s = Inl e \<Longrightarrow> e \<noteq> Error x"
  by (auto simp: scandir_def listdir_def split: option.splits entry.splits)

lemma copy_entries_not_Error:
  "copy_entries rec ign src dst es errs t = (r, errs', t') \<Longrightarrow> r \<noteq> Some (Error x)"
proof (induction es arbitrary: errs t)
  case Nil
  then show ?case by simp
next
  case (Cons a es)
  obtain n b where a: "a = (n, b)" by (cases a)
  from Cons.prems [unfolded a] show ?case
  proof (cases rule: copy_entries_Cons)
    case skip
    then show ?thesis using Cons.IH by blast
  next
    case (go r1 t1 x)
    from Cons.IH [OF go(3)] show ?thesis .
  next
    case (stop t1)
    then show ?thesis by simp
  qed
qed

lemma copytree_noempty: "rec_noempty (copytree n ign)"
  unfolding rec_noempty_def
proof (intro allI)
  fix t s d t'
  show "copytree n ign t s d \<noteq> (Some (Error []), t')"
  proof
    assume run: "copytree n ign t s d = (Some (Error []), t')"
    then obtain m where n: "n = Suc m" by (cases n) auto
    from run [unfolded n] show False
    proof (cases rule: copytree_Suc)
      case (scan_fail e)
      with scandir_Inl [of t s e "[]"] show ?thesis by simp
    next
      case (mk_fail entries e)
      with makedirs_exn [of t d e t' "[]"] show ?thesis by simp
    next
      case (loop entries t0 r2 errs2)
      from copy_entries_not_Error [OF loop(3), of "[]"] loop(4) show ?thesis
        by (auto split: option.splits if_splits)
    qed
  qed
qed

text \<open>A successful copy has copied every file that the walk reaches.\<close>

lemma entry_next:
  assumes ok: "rec_ok W rec" and W0: "\<And>s. W s []"
    and wf: "wf_fs t" and dst: "lookup t dst = Some Dir"
    and fresh: "\<forall>m \<in> fst ` set ((n, b) # es). lookup t (dst @ [m]) = None"
    and dist: "distinct (map fst ((n, b) # es))"
    and op: "(if b then rec t (src @ [n]) (dst @ [n]) else copy2 t (src @ [n]) (dst @ [n])) = (r1, t1)"
  shows "wf_fs t1" "extends t t1" "lookup t1 dst = Some Dir"
    "\<forall>m \<in> fst ` set es. lookup t1 (dst @ [m]) = None" "distinct (map fst es)"
proof -
  have fresh_n: "lookup t (dst @ [n]) = None" using fresh by simp
  have fresh_es: "\<forall>m \<in> fst ` set es. lookup t (dst @ [m]) = None" using fresh by simp
  show dist': "distinct (map fst es)" using dist by simp
  have notin: "n \<notin> fst ` set es" using dist by auto
  from entry_frame [OF ok W0 wf dst fresh_n op]
  show fr: "wf_fs t1" "extends t t1" by auto
  from entry_frame [OF ok W0 wf dst fresh_n op]
  have located: "\<forall>p \<in> news t t1. \<exists>q. p = dst @ n # q \<and> W (src @ [n]) q" by auto
  show "lookup t1 dst = Some Dir" using fr(2) dst by (simp add: extends_def)
  show "\<forall>m \<in> fst ` set es. lookup t1 (dst @ [m]) = None"
  proof
    fix m assume m: "m \<in> fst ` set es"
    show "lookup t1 (dst @ [m]) = None"
    proof (rule ccontr)
      assume "lookup t1 (dst @ [m]) \<noteq> None"
      moreover have "lookup t (dst @ [m]) = None" by (rule fresh_es [rule_format, OF m])
      ultimately have "dst @ [m] \<in> news t t1" by (simp add: news_def)
      with located obtain q where "dst @ [m] = dst @ n # q" by blast
      then have "m = n" by simp
      with m notin show False by simp
    qed
  qed
qed

lemma extends_lookup: "extends t t' \<Longrightarrow> lookup t p = Some e \<Longrightarrow> lookup t' p = Some e"
  by (simp add: extends_def)

lemma copy_entries_copies:
  assumes ok: "rec_ok W rec" and W0: "\<And>s. W s []"
    and cp: "rec_copies W rec" and ne: "rec_noempty rec"
  shows "wf_fs t \<Longrightarrow> lookup t dst = Some Dir \<Longrightarrow>
     \<forall>m \<in> fst ` set es. lookup t (dst @ [m]) = None \<Longrightarrow> distinct (map fst es) \<Longrightarrow>
     \<forall>m b'. (m, b') \<in> set es \<longrightarrow>
        lookup t (src @ [m]) \<noteq> None \<and> (b' \<longleftrightarrow> lookup t (src @ [m]) = Some Dir) \<Longrightarrow>
     copy_entries rec ign src dst es [] t = (None, [], t') \<Longrightarrow>
     (n, b) \<in> set es \<Longrightarrow> n \<notin> set ign \<Longrightarrow>
     lookup t (src @ n # q) = Some (File c) \<Longrightarrow> W (src @ [n]) q \<Longrightarrow>
     lookup t' (dst @ n # q) = Some (File c)"
proof (induction es arbitrary: t)
  case Nil
  then show ?case by simp
next
  case (Cons a es)
  obtain n0 b0 where a: "a = (n0, b0)" by (cases a)
  note wf = Cons.prems(1) and dst = Cons.prems(2) and fresh = Cons.prems(3) [unfolded a]
    and dist = Cons.prems(4) [unfolded a] and flags = Cons.prems(5)
    and run = Cons.prems(6) [unfolded a] and mem = Cons.prems(7) and nign = Cons.prems(8)
    and isfile = Cons.prems(9) and W = Cons.prems(10)
  have flags_es: "\<forall>m b'. (m, b') \<in> set es \<longrightarrow>
        lookup t (src @ [m]) \<noteq> None \<and> (b' \<longleftrightarrow> lookup t (src @ [m]) = Some Dir)"
    using flags by simp
  from run show ?case
  proof (cases rule: copy_entries_Cons)
    case skip
    with nign mem a have mem': "(n, b) \<in> set es" by auto
    have fresh_es: "\<forall>m \<in> fst ` set es. lookup t (dst @ [m]) = None" using fresh by simp
    have dist_es: "distinct (map fst es)" using dist by simp
    from Cons.IH [OF wf dst fresh_es dist_es flags_es skip(2) mem' nign isfile W]
    show ?thesis .
  next
    case (go r1 t1 x)
    from copy_entries_errors [OF go(3)] have x: "x = []" by simp
    note nx = entry_next [OF ok W0 wf dst fresh dist go(2)]
    have r1: "r1 = None"
    proof (cases b0)
      case True
      with go(2) have "rec t (src @ [n0]) (dst @ [n0]) = (r1, t1)" by simp
      with ne have "r1 \<noteq> Some (Error [])" unfolding rec_noempty_def by metis
      with go(5) x show ?thesis by simp
    next
      case False
      with go(2) have c2: "copy2 t (src @ [n0]) (dst @ [n0]) = (r1, t1)" by simp
      have "lookup t (dst @ [n0]) = None" using fresh by simp
      from copy2_frame [OF wf this c2] have "r1 \<noteq> Some (Error [])" by auto
      with go(5) x show ?thesis by simp
    qed
    have rest: "copy_entries rec ign src dst es [] t1 = (None, [], t')"
      using go(3) x by simp
    have flags1: "\<forall>m b'. (m, b') \<in> set es \<longrightarrow>
        lookup t1 (src @ [m]) \<noteq> None \<and> (b' \<longleftrightarrow> lookup t1 (src @ [m]) = Some Dir)"
    proof (intro allI impI)
      fix m b' assume "(m, b') \<in> set es"
      with flags_es have f: "lookup t (src @ [m]) \<noteq> None"
        "b' \<longleftrightarrow> lookup t (src @ [m]) = Some Dir" by blast+
      from nx(2) f(1) have "lookup t1 (src @ [m]) = lookup t (src @ [m])"
        by (simp add: extends_def)
      with f show "lookup t1 (src @ [m]) \<noteq> None \<and> (b' \<longleftrightarrow> lookup t1 (src @ [m]) = Some Dir)"
        by simp
    qed
    show ?thesis
    proof (cases "(n, b) = (n0, b0)")
      case here: True
      have done1: "lookup t1 (dst @ n # q) = Some (File c)"
      proof (cases b0)
        case True
        with go(2) r1 have "rec t (src @ [n0]) (dst @ [n0]) = (None, t1)" by simp
        with cp wf have "\<forall>q c. lookup t ((src @ [n0]) @ q) = Some (File c) \<and> W (src @ [n0]) q \<longrightarrow>
            lookup t1 ((dst @ [n0]) @ q) = Some (File c)"
          unfolding rec_copies_def by blast
        with isfile W here show ?thesis by simp
      next
        case False
        with go(2) r1 have c2: "copy2 t (src @ [n0]) (dst @ [n0]) = (None, t1)" by simp
        have notdir: "lookup t (src @ [n0]) \<noteq> Some Dir"
          using flags a False by simp
        have "q = []"
        proof (rule ccontr)
          assume "q \<noteq> []"
          from wf_below [OF wf this, of "src @ [n]"] isfile have "lookup t (src @ [n]) = Some Dir"
            by simp
          with notdir here show False by simp
        qed
        have "lookup t (dst @ [n0]) = None" using fresh by simp
        from copy2_frame [OF wf this c2]
        obtain c' where "lookup t (src @ [n0]) = Some (File c')" "lookup t1 (dst @ [n0]) = Some (File c')"
          by auto
        with isfile here \<open>q = []\<close> show ?thesis by simp
      qed
      have W0': "\<And>s. W s []" by (rule W0)
      from copy_entries_frame [OF ok W0' nx(1) nx(3) nx(4) nx(5) rest]
      have "extends t1 t'" by simp
      from extends_lookup [OF this done1] show ?thesis .
    next
      case False
      with mem a have mem': "(n, b) \<in> set es" by auto
      have file1: "lookup t1 (src @ n # q) = Some (File c)"
        by (rule extends_lookup [OF nx(2) isfile])
      from Cons.IH [OF nx(1) nx(3) nx(4) nx(5) flags1 rest mem' nign file1 W]
      show ?thesis .
    qed
  next
    case (stop t1)
    then show ?thesis by simp
  qed
qed

lemma ignored_single:
  "ignore src0 ex s [m] = [] \<Longrightarrow> m \<notin> set (ignore src0 ex s names)"
  by (auto simp: ignore_def split: if_splits)

lemma copytree_copies: "rec_copies (walked src0 ex) (copytree n (ignore src0 ex))"
proof (induction n)
  case 0
  show ?case by (simp add: rec_copies_def)
next
  case (Suc n)
  let ?ign = "ignore src0 ex"
  let ?W = "walked src0 ex"
  show ?case
    unfolding rec_copies_def
  proof (intro allI impI, elim conjE)
    fix t s d t' q c
    assume wf: "wf_fs t" and run: "copytree (Suc n) ?ign t s d = (None, t')"
      and isfile: "lookup t (s @ q) = Some (File c)" and W: "?W s q"
    from run show "lookup t' (d @ q) = Some (File c)"
    proof (cases rule: copytree_Suc)
      case (scan_fail e)
      then show ?thesis by simp
    next
      case (mk_fail entries e)
      then show ?thesis by simp
    next
      case (loop entries t0 r2 errs2)
      from loop(4) have r2: "r2 = None" "errs2 = []"
        by (auto split: option.splits if_splits)
      note fr = copytree_loop [OF wf loop(1) loop(2) loop(3)]
      note sc = scandir_Inr [OF loop(1)]
      from sc(1) isfile obtain m q' where q: "q = m # q'" by (cases q) auto
      have child: "lookup t (s @ [m]) \<noteq> None"
      proof (cases "q' = []")
        case True
        with isfile q show ?thesis by simp
      next
        case False
        from wf_below [OF wf False, of "s @ [m]"] isfile q show ?thesis by simp
      qed
      then have "m \<in> set (children t s)" by (simp add: set_children)
      then have mem: "(m, lookup t (s @ [m]) = Some Dir) \<in> set entries"
        by (subst sc(3)) auto
      have flags: "\<forall>m b'. (m, b') \<in> set entries \<longrightarrow>
          lookup t0 (s @ [m]) \<noteq> None \<and> (b' \<longleftrightarrow> lookup t0 (s @ [m]) = Some Dir)"
      proof (intro allI impI)
        fix m' b' assume "(m', b') \<in> set entries"
        then have "m' \<in> set (children t s)" "b' \<longleftrightarrow> lookup t (s @ [m']) = Some Dir"
          by (subst (asm) sc(3), auto)+
        then have ex: "lookup t (s @ [m']) \<noteq> None" by (simp add: set_children)
        with fr(2) have "lookup t0 (s @ [m']) = lookup t (s @ [m'])" by (simp add: extends_def)
        with ex \<open>b' \<longleftrightarrow> lookup t (s @ [m']) = Some Dir\<close>
        show "lookup t0 (s @ [m']) \<noteq> None \<and> (b' \<longleftrightarrow> lookup t0 (s @ [m']) = Some Dir)" by simp
      qed
      from W q have here: "?ign s [m] = []" and W': "?W (s @ [m]) q'"
        by (simp_all add: os_path_join_def)
      have nign: "m \<notin> set (?ign s (map fst entries))" by (rule ignored_single [OF here])
      have file0: "lookup t0 (s @ m # q') = Some (File c)"
        using extends_lookup [OF fr(2) isfile] q by simp
      have run': "copy_entries (copytree n ?ign) (?ign s (map fst entries)) s d entries [] t0
          = (None, [], t')"
        using loop(3) r2 by simp
      have W0: "\<And>s. ?W s []" by simp
      from copy_entries_copies [OF copytree_rec_ok W0 Suc.IH copytree_noempty
          fr(1) fr(4) fr(5) fr(6) flags run' mem nign file0 W']
      show ?thesis using q by simp
    qed
  qed
qed

lemma walked_iff:
  "walked src ex (src @ r0) q \<longleftrightarrow>
     (\<forall>r. r \<noteq> [] \<and> prefix r q \<longrightarrow> last r \<notin> ex \<and> sep_join (r0 @ r) \<notin> ex)"
proof (induction q arbitrary: r0)
  case Nil
  show ?case by simp
next
  case (Cons m q)
  have "walked src ex (src @ r0) (m # q) \<longleftrightarrow>
        (m \<notin> ex \<and> sep_join (r0 @ [m]) \<notin> ex) \<and> walked src ex (src @ (r0 @ [m])) q"
    by (simp add: ignore_single os_path_join_def)
  also have "\<dots> \<longleftrightarrow> (m \<notin> ex \<and> sep_join (r0 @ [m]) \<notin> ex) \<and>
        (\<forall>r. r \<noteq> [] \<and> prefix r q \<longrightarrow> last r \<notin> ex \<and> sep_join ((r0 @ [m]) @ r) \<notin> ex)"
    by (simp only: Cons.IH)
  also have "\<dots> \<longleftrightarrow> (\<forall>r. r \<noteq> [] \<and> prefix r (m # q) \<longrightarrow> last r \<notin> ex \<and> sep_join (r0 @ r) \<notin> ex)"
  proof
    assume a: "(m \<notin> ex \<and> sep_join (r0 @ [m]) \<notin> ex) \<and>
        (\<forall>r. r \<noteq> [] \<and> prefix r q \<longrightarrow> last r \<notin> ex \<and> sep_join ((r0 @ [m]) @ r) \<notin> ex)"
    show "\<forall>r. r \<noteq> [] \<and> prefix r (m # q) \<longrightarrow> last r \<notin> ex \<and> sep_join (r0 @ r) \<notin> ex"
    proof (intro allI impI)
      fix r assume r: "r \<noteq> [] \<and> prefix r (m # q)"
      then obtain r' where r': "r = m # r'" "prefix r' q" by (auto simp: prefix_Cons)
      show "last r \<notin> ex \<and> sep_join (r0 @ r) \<notin> ex"
      proof (cases "r' = []")
        case True
        with a r' show ?thesis by simp
      next
        case False
        with a r' have "last r' \<notin> ex \<and> sep_join ((r0 @ [m]) @ r') \<notin> ex" by blast
        with r' False show ?thesis by simp
      qed
    qed
  next
    assume b: "\<forall>r. r \<noteq> [] \<and> prefix r (m # q) \<longrightarrow> last r \<notin> ex \<and> sep_join (r0 @ r) \<notin> ex"
    have 1: "m \<notin> ex \<and> sep_join (r0 @ [m]) \<notin> ex"
      using b [rule_format, of "[m]"] by simp
    have 2: "last r \<notin> ex \<and> sep_join ((r0 @ [m]) @ r) \<notin> ex" if "r \<noteq> [] \<and> prefix r q" for r
      using b [rule_format, of "m # r"] that by simp
    from 1 2 show "(m \<notin> ex \<and> sep_join (r0 @ [m]) \<notin> ex) \<and>
        (\<forall>r. r \<noteq> [] \<and> prefix r q \<longrightarrow> last r \<notin> ex \<and> sep_join ((r0 @ [m]) @ r) \<notin> ex)"
      by blast
  qed
  finally show ?case .
qed

text \<open>
  Without any assumption on the file system: what is present stays present, and a
  directory stays a directory.
\<close>

lemma keeps_refl: "keeps t t"
  by (simp add: keeps_def)

lemma keeps_trans: "keeps t t1 \<Longrightarrow> keeps t1 t2 \<Longrightarrow> keeps t t2"
  by (simp add: keeps_def)

lemma keeps_put_entry: "p \<noteq> [] \<Longrightarrow> lookup t p \<noteq> Some Dir \<Longrightarrow> keeps t (put_entry t p e)"
  by (auto simp: keeps_def lookup_put_entry)

lemma mkdir_keeps: "mkdir t p = (r, t') \<Longrightarrow> keeps t t'"
  by (erule mkdir_cases) (simp_all add: keeps_refl keeps_put_entry)

lemma copy2_keeps: "copy2 t s d = (r, t') \<Longrightarrow> keeps t t'"
  by (erule copy2_cases) (simp_all add: keeps_refl keeps_put_entry)

lemma makedirs_keeps:
  "makedirs t name = (r, t') \<Longrightarrow>
   keeps t t' \<and> (r = None \<longrightarrow> name \<noteq> [] \<and> lookup t' name = Some Dir \<and>
                                 lookup t' (butlast name) = Some Dir)"
proof (induction t name arbitrary: r t' rule: makedirs.induct)
  case (1 t name)
  have mk: "keeps t t0 \<Longrightarrow> mkdir t0 name = (r, t') \<Longrightarrow>
     keeps t t' \<and> (r = None \<longrightarrow> name \<noteq> [] \<and> lookup t' name = Some Dir \<and>
                                 lookup t' (butlast name) = Some Dir)" for t0
  proof -
    assume k: "keeps t t0" and m: "mkdir t0 name = (r, t')"
    from m show ?thesis
    proof (cases rule: mkdir_cases)
      case (fail e)
      with k show ?thesis by simp
    next
      case ok
      have "butlast name \<noteq> name" using ok(3)
        by (metis append_butlast_last_id append_self_conv list.distinct(1))
      with ok have "lookup t' name = Some Dir" "lookup t' (butlast name) = Some Dir"
        by (simp_all add: lookup_put_entry)
      moreover have "keeps t0 t'" using ok by (simp add: keeps_put_entry)
      ultimately show ?thesis using k ok(3) keeps_trans by blast
    qed
  qed
  show ?case
  proof (cases "name \<noteq> [] \<and> lookup t (butlast name) = None")
    case missing: True
    obtain r0 t0 where rec: "makedirs t (butlast name) = (r0, t0)"
      by (cases "makedirs t (butlast name)")
    have ih: "keeps t t0" using "1.IH" [OF missing rec] by simp
    have step: "makedirs t name =
        (case r0 of None \<Rightarrow> mkdir t0 name
         | Some e \<Rightarrow> (case e of FileExistsError p \<Rightarrow> mkdir t0 name | _ \<Rightarrow> (Some e, t0)))"
      by (subst makedirs_unfold) (simp add: missing rec)
    show ?thesis
    proof (cases "r0 = None \<or> (\<exists>p. r0 = Some (FileExistsError p))")
      case True
      then have "mkdir t0 name = (r, t')"
        using step "1.prems" by auto
      with ih show ?thesis by (rule mk)
    next
      case False
      then obtain e0 where e0: "r0 = Some e0" "\<forall>p. e0 \<noteq> FileExistsError p" by auto
      then have "makedirs t name = (Some e0, t0)"
        using step by (cases e0) auto
      with "1.prems" have "r = Some e0" "t' = t0" by simp_all
      with ih show ?thesis by simp
    qed
  next
    case False
    then have "makedirs t name = mkdir t name"
      by (subst makedirs_unfold) auto
    with "1.prems" have "mkdir t name = (r, t')" by simp
    with keeps_refl show ?thesis by (rule mk)
  qed
qed

lemma copy_entries_keeps:
  assumes rec: "\<And>t s d r t'. rec t s d = (r, t') \<Longrightarrow> keeps t t'"
  shows "copy_entries rec ign src dst es errs t = (r, errs', t') \<Longrightarrow> keeps t t'"
proof (induction es arbitrary: errs t)
  case Nil
  then show ?case by (simp add: keeps_refl)
next
  case (Cons a es)
  obtain n b where a: "a = (n, b)" by (cases a)
  have op: "(if b then rec t (src @ [n]) (dst @ [n]) else copy2 t (src @ [n]) (dst @ [n])) = (r1, t1)
     \<Longrightarrow> keeps t t1" for r1 t1
    using rec copy2_keeps by (cases b) auto
  from Cons.prems [unfolded a] show ?case
  proof (cases rule: copy_entries_Cons)
    case skip
    then show ?thesis using Cons.IH by blast
  next
    case (go r1 t1 x)
    from op [OF go(2)] Cons.IH [OF go(3)] show ?thesis by (rule keeps_trans)
  next
    case (stop t1)
    with op [OF stop(2)] show ?thesis by simp
  qed
qed

lemma copytree_keeps: "copytree n ign t s d = (r, t') \<Longrightarrow> keeps t t'"
proof (induction n arbitrary: t s d r t')
  case 0
  then show ?case by (simp add: keeps_refl)
next
  case (Suc n)
  from Suc.prems show ?case
  proof (cases rule: copytree_Suc)
    case (scan_fail e)
    then show ?thesis by (simp add: keeps_refl)
  next
    case (mk_fail entries e)
    from makedirs_keeps [OF mk_fail(2)] show ?thesis by simp
  next
    case (loop entries t0 r2 errs2)
    from makedirs_keeps [OF loop(2)] have "keeps t t0" by simp
    moreover from copy_entries_keeps [OF Suc.IH loop(3)] have "keeps t0 t'" .
    ultimately show ?thesis by (rule keeps_trans)
  qed
qed

text \<open>A second copy into the destination of a successful one fails, and changes nothing.\<close>

lemma copytree_again:
  assumes "copytree n ign t src dst = (None, t')"
  shows "copytree n ign t' src dst = (Some (FileExistsError dst), t')"
proof -
  from assms obtain m where n: "n = Suc m" by (cases n) auto
  from assms [unfolded n] have facts: "lookup t' src = Some Dir \<and> dst \<noteq> [] \<and>
     lookup t' dst = Some Dir \<and> lookup t' (butlast dst) = Some Dir"
  proof (cases rule: copytree_Suc)
    case (scan_fail e)
    then show ?thesis by simp
  next
    case (mk_fail entries e)
    then show ?thesis by simp
  next
    case (loop entries t0 r2 errs2)
    from makedirs_keeps [OF loop(2)]
    have mk: "keeps t t0" "dst \<noteq> []" "lookup t0 dst = Some Dir" "lookup t0 (butlast dst) = Some Dir"
      by simp_all
    have k: "keeps t0 t'" by (rule copy_entries_keeps [OF copytree_keeps loop(3)])
    have "lookup t src = Some Dir" by (rule scandir_Inr(1) [OF loop(1)])
    with mk k show ?thesis by (simp add: keeps_def)
  qed
  then have scan: "scandir t' src = Inr (map (\<lambda>n. (n, lookup t' (src @ [n]) = Some Dir)) (children t' src))"
    by (simp add: scandir_def listdir_def)
  have "makedirs t' dst = mkdir t' dst"
    using facts by (subst makedirs_unfold) simp
  also have "\<dots> = (Some (FileExistsError dst), t')"
    using facts by (simp add: mkdir_def)
  finally have "makedirs t' dst = (Some (FileExistsError dst), t')" .
  with scan show ?thesis by (simp add: n)
qed

text \<open>
  C7.  After a successful \<open>copy_dir(src, dst, exclude)\<close>, the same call again does not
  copy: \<open>os.makedirs(dst)\<close> raises \<open>FileExistsError\<close> for \<open>dst\<close>, \<open>copy_dir\<close> prints the
  failure, and the file system stays as the first call left it.
\<close>

theorem copy_dir_twice_fails:
  assumes "copytree (recursion_limit w) (ignore src (set_or_empty exclude)) (files w) src dst
             = (None, t')"
  shows "copy_dir w src dst exclude
           = (None, w\<lparr>files := t', out := out w @ [''Copying: '' @ relpath src (cwd w)]\<rparr>) \<and>
         copy_dir (w\<lparr>files := t', out := out w @ [''Copying: '' @ relpath src (cwd w)]\<rparr>)
             src dst exclude
           = (None, w\<lparr>files := t',
                      out := out w @ [''Copying: '' @ relpath src (cwd w),
                                      ''Copying: '' @ relpath src (cwd w),
                                      ''Failed to copy: '' @ path_str src @ '';'' @ [CHR 0x0A] @
                                        exn_str (FileExistsError dst)]\<rparr>)"
  using assms copytree_again [OF assms]
  by (simp add: copy_dir_def)

theorem copy_dir_twice_fails_witness:
  "copytree 1000 (ignore [''src''] (set_or_empty None))
      [([''src''], Dir), ([''src'', ''a''], File ''A'')] [''src''] [''dst'']
     = (None, [([''dst'', ''a''], File ''A''), ([''dst''], Dir),
               ([''src''], Dir), ([''src'', ''a''], File ''A'')]) \<and>
   copy_dir \<lparr>files = [([''dst'', ''a''], File ''A''), ([''dst''], Dir),
                      ([''src''], Dir), ([''src'', ''a''], File ''A'')],
             cwd = [], recursion_limit = 1000, out = [''Copying: src'']\<rparr> [''src''] [''dst''] None
     = (None, \<lparr>files = [([''dst'', ''a''], File ''A''), ([''dst''], Dir),
                        ([''src''], Dir), ([''src'', ''a''], File ''A'')],
               cwd = [], recursion_limit = 1000,
               out = [''Copying: src'', ''Copying: src'',
                      ''Failed to copy: /src;'' @ [CHR 0x0A] @ ''[Errno 17] File exists: '' @ [CHR 0x27] @ ''/dst'' @ [CHR 0x27]]\<rparr>)"
proof -
  have first: "copytree (recursion_limit \<lparr>files = [([''src''], Dir), ([''src'', ''a''], File ''A'')],
                    cwd = [], recursion_limit = 1000, out = []\<rparr>)
      (ignore [''src''] (set_or_empty None))
      (files \<lparr>files = [([''src''], Dir), ([''src'', ''a''], File ''A'')],
                    cwd = [], recursion_limit = 1000, out = []\<rparr>) [''src''] [''dst'']
     = (None, [([''dst'', ''a''], File ''A''), ([''dst''], Dir),
               ([''src''], Dir), ([''src'', ''a''], File ''A'')])"
    by code_simp
  from copy_dir_twice_fails [OF first] first show ?thesis
    by (simp add: relpath_def path_str_def repr_str_def)
qed

text \<open>
  C2, as stated: after a successful copy every file under \<open>src\<close> whose name and whose path
  relative to \<open>src\<close> are not in \<open>exclude\<close> is under \<open>dst\<close>.  It is not so for a file in
  an excluded directory: with \<open>exclude = {bin, obj}\<close> the copy succeeds, neither \<open>x.bin\<close>
  nor \<open>bin/x.bin\<close> is in \<open>exclude\<close>, and \<open>dst/bin/x.bin\<close> does not exist.
\<close>

theorem copy_dir_skips_below_excluded_dir:
  "copy_dir \<lparr>files = [([''src''], Dir), ([''src'', ''bin''], Dir),
                      ([''src'', ''bin'', ''x.bin''], File ''X''), ([''src'', ''obj''], Dir),
                      ([''src'', ''obj'', ''y.o''], File ''Y''),
                      ([''src'', ''Program.cs''], File ''P'')],
             cwd = [], recursion_limit = 1000, out = []\<rparr>
      [''src''] [''dst''] (Some {''bin'', ''obj''})
     = (None, \<lparr>files = [([''dst'', ''Program.cs''], File ''P''), ([''dst''], Dir),
                        ([''src''], Dir), ([''src'', ''bin''], Dir),
                        ([''src'', ''bin'', ''x.bin''], File ''X''), ([''src'', ''obj''], Dir),
                        ([''src'', ''obj'', ''y.o''], File ''Y''),
                        ([''src'', ''Program.cs''], File ''P'')],
               cwd = [], recursion_limit = 1000, out = [''Copying: src'']\<rparr>) \<and>
   ''x.bin'' \<notin> {''bin'', ''obj''} \<and>
   relpath [''src'', ''bin'', ''x.bin''] [''src''] \<notin> {''bin'', ''obj''} \<and>
   lookup [([''dst'', ''Program.cs''], File ''P''), ([''dst''], Dir),
           ([''src''], Dir), ([''src'', ''bin''], Dir),
           ([''src'', ''bin'', ''x.bin''], File ''X''), ([''src'', ''obj''], Dir),
           ([''src'', ''obj'', ''y.o''], File ''Y''),
           ([''src'', ''Program.cs''], File ''P'')] [''dst'', ''bin'', ''x.bin''] = None"
proof (intro conjI)
  show "copy_dir \<lparr>files = [([''src''], Dir), ([''src'', ''bin''], Dir),
                      ([''src'', ''bin'', ''x.bin''], File ''X''), ([''src'', ''obj''], Dir),
                      ([''src'', ''obj'', ''y.o''], File ''Y''),
                      ([''src'', ''Program.cs''], File ''P'')],
             cwd = [], recursion_limit = 1000, out = []\<rparr>
      [''src''] [''dst''] (Some {''bin'', ''obj''})
     = (None, \<lparr>files = [([''dst'', ''Program.cs''], File ''P''), ([''dst''], Dir),
                        ([''src''], Dir), ([''src'', ''bin''], Dir),
                        ([''src'', ''bin'', ''x.bin''], File ''X''), ([''src'', ''obj''], Dir),
                        ([''src'', ''obj'', ''y.o''], File ''Y''),
                        ([''src'', ''Program.cs''], File ''P'')],
               cwd = [], recursion_limit = 1000, out = [''Copying: src'']\<rparr>)"
    by code_simp
qed (simp_all add: relpath_def lookup_def)

text \<open>
  C2, amended: after a successful copy on a well-formed file system, every file under
  \<open>src\<close> is at the same place under \<open>dst\<close> with the same content, provided that neither
  the file nor a directory on the way from \<open>src\<close> to it is excluded by its name or by
  its path relative to \<open>src\<close>; and no entry below \<open>dst\<close> has a name, or a path relative to
  \<open>dst\<close>, that is in \<open>exclude\<close>.
\<close>

theorem copy_dir_success_contents:
  assumes wf: "wf_fs (files w)"
    and ok: "copytree (recursion_limit w) (ignore src (set_or_empty exclude)) (files w) src dst
               = (None, t')"
  shows "copy_dir w src dst exclude
           = (None, w\<lparr>files := t', out := out w @ [''Copying: '' @ relpath src (cwd w)]\<rparr>) \<and>
         (\<forall>q c. lookup (files w) (src @ q) = Some (File c) \<and>
                (\<forall>r. r \<noteq> [] \<and> prefix r q \<longrightarrow>
                       last r \<notin> set_or_empty exclude \<and> sep_join r \<notin> set_or_empty exclude) \<longrightarrow>
                lookup t' (dst @ q) = Some (File c)) \<and>
         (\<forall>q. q \<noteq> [] \<and> lookup t' (dst @ q) \<noteq> None \<longrightarrow>
                last q \<notin> set_or_empty exclude \<and> sep_join q \<notin> set_or_empty exclude)"
proof (intro conjI allI impI)
  show "copy_dir w src dst exclude
           = (None, w\<lparr>files := t', out := out w @ [''Copying: '' @ relpath src (cwd w)]\<rparr>)"
    using ok by (simp add: copy_dir_def)
next
  fix q c
  assume a: "lookup (files w) (src @ q) = Some (File c) \<and>
       (\<forall>r. r \<noteq> [] \<and> prefix r q \<longrightarrow>
              last r \<notin> set_or_empty exclude \<and> sep_join r \<notin> set_or_empty exclude)"
  then have "walked src (set_or_empty exclude) src q"
    using walked_iff [of src "set_or_empty exclude" "[]" q] by simp
  with copytree_copies [of src "set_or_empty exclude" "recursion_limit w"] wf ok a
  show "lookup t' (dst @ q) = Some (File c)"
    unfolding rec_copies_def by blast
next
  fix q
  assume q: "q \<noteq> [] \<and> lookup t' (dst @ q) \<noteq> None"
  then have "walked src (set_or_empty exclude) src q"
    using copytree_below_dst [OF wf ok, of q] by simp
  with walked_last [of src "set_or_empty exclude" "[]" q] q
  show "last q \<notin> set_or_empty exclude" "sep_join q \<notin> set_or_empty exclude"
    by simp_all
qed

theorem copy_dir_success_contents_witness:
  "wf_fs [([''src''], Dir), ([''src'', ''bin''], Dir),
          ([''src'', ''bin'', ''x.bin''], File ''X''), ([''src'', ''Program.cs''], File ''P'')] \<and>
   copytree 1000 (ignore [''src''] {''bin'', ''obj''})
      [([''src''], Dir), ([''src'', ''bin''], Dir),
       ([''src'', ''bin'', ''x.bin''], File ''X''), ([''src'', ''Program.cs''], File ''P'')]
      [''src''] [''dst'']
     = (None, [([''dst'', ''Program.cs''], File ''P''), ([''dst''], Dir),
               ([''src''], Dir), ([''src'', ''bin''], Dir),
               ([''src'', ''bin'', ''x.bin''], File ''X''), ([''src'', ''Program.cs''], File ''P'')]) \<and>
   lookup [([''dst'', ''Program.cs''], File ''P''), ([''dst''], Dir),
           ([''src''], Dir), ([''src'', ''bin''], Dir),
           ([''src'', ''bin'', ''x.bin''], File ''X''), ([''src'', ''Program.cs''], File ''P'')]
      [''dst'', ''Program.cs''] = Some (File ''P'') \<and>
   ''Program.cs'' \<notin> {''bin'', ''obj''}"
proof -
  let ?t = "[([''src''], Dir), ([''src'', ''bin''], Dir),
          ([''src'', ''bin'', ''x.bin''], File ''X''), ([''src'', ''Program.cs''], File ''P'')]"
  let ?t' = "[([''dst'', ''Program.cs''], File ''P''), ([''dst''], Dir),
               ([''src''], Dir), ([''src'', ''bin''], Dir),
               ([''src'', ''bin'', ''x.bin''], File ''X''), ([''src'', ''Program.cs''], File ''P'')]"
  let ?w = "\<lparr>files = ?t, cwd = [], recursion_limit = 1000, out = []\<rparr>"
  have wf0: "wf_fs ?t" by (simp add: wf_fs_def lookup_def)
  then have wf: "wf_fs (files ?w)" by simp
  have run0: "copytree 1000 (ignore [''src''] {''bin'', ''obj''}) ?t [''src''] [''dst''] = (None, ?t')"
    by code_simp
  then have run: "copytree (recursion_limit ?w) (ignore [''src''] (set_or_empty (Some {''bin'', ''obj''})))
      (files ?w) [''src''] [''dst''] = (None, ?t')"
    by (simp add: set_or_empty_def)
  note inst = copy_dir_success_contents [OF wf run]
  have src_file: "lookup (files ?w) ([''src''] @ [''Program.cs'']) = Some (File ''P'')"
    by (simp add: lookup_def)
  have admitted: "\<forall>r. r \<noteq> [] \<and> prefix r [''Program.cs''] \<longrightarrow>
      last r \<notin> set_or_empty (Some {''bin'', ''obj''}) \<and>
      sep_join r \<notin> set_or_empty (Some {''bin'', ''obj''})"
    by (auto simp: prefix_Cons set_or_empty_def)
  from inst [THEN conjunct2, THEN conjunct1, rule_format, of "[''Program.cs'']" "''P''"]
    src_file admitted
  have copied: "lookup ?t' ([''dst''] @ [''Program.cs'']) = Some (File ''P'')" by blast
  have present: "[''Program.cs''] \<noteq> [] \<and> lookup ?t' ([''dst''] @ [''Program.cs'']) \<noteq> None"
    using copied by simp
  from inst [THEN conjunct2, THEN conjunct2, rule_format, OF present]
  have "''Program.cs'' \<notin> {''bin'', ''obj''}" by (simp add: set_or_empty_def)
  with wf0 run0 copied show ?thesis by simp
qed

end
